theory Spec2Isabelle
  imports Complex_Main "HOL-Library.AList"
begin

section \<open>Events and the interval filter\<close>

text \<open>
  An event of the evented profile format is the object \<^verbatim>\<open>{type, frame, at}\<close>.
  The field \<open>type\<close> is the string \<^verbatim>\<open>'O'\<close> (here \<open>Open\<close>) or \<^verbatim>\<open>'C'\<close>
  (here \<open>Close\<close>), \<open>frame\<close> is an index into a frame table, and \<open>at\<close> (here
  \<open>at'\<close>) is the weight coordinate, an integer because every producer writes
  \<^verbatim>\<open>parseInt(value.toString())\<close> into it.
\<close>

datatype event_type = Open | Close

record event =
  type :: event_type
  frame :: nat
  at' :: int

text \<open>
  The window bounds \<open>intervalStart\<close> and \<open>intervalEnd\<close> are JavaScript numbers taken
  from the viewport (\<^verbatim>\<open>Math.max(0, rect.origin.x)\<close> and so on), so they are
  fractional in general; they are modelled as rationals, on which the comparisons
  \<^verbatim>\<open>>=\<close> and \<^verbatim>\<open><=\<close> are exact.

  \<^verbatim>\<open>x.toString()\<close> prints \<open>x\<close> in plain decimal notation when \<open>x = 0\<close> or
  \<open>10\<^sup>-\<^sup>6 \<le> \<bar>x\<bar> < 10\<^sup>2\<^sup>1\<close> (\<open>plainDecimal\<close>), and \<^verbatim>\<open>parseInt\<close> reads the digits
  before the decimal point: it truncates \<open>x\<close> toward zero. Any other number prints
  with an exponent, as \<^verbatim>\<open>5e-7\<close> or \<^verbatim>\<open>1.5e+21\<close>, with one digit before the point,
  and \<^verbatim>\<open>parseInt\<close> stops at the point or at the \<^verbatim>\<open>e\<close>: the result is the first
  significant decimal digit of \<open>x\<close>, with the sign of \<open>x\<close>. On a rational this digit
  is read off the exact value.
\<close>

definition plainDecimal :: "rat \<Rightarrow> bool" where
  "plainDecimal x \<longleftrightarrow> x = 0 \<or> (1 / 10 ^ 6 \<le> \<bar>x\<bar> \<and> \<bar>x\<bar> < 10 ^ 21)"

text \<open>The first digit of a natural number, and the number of its digits.\<close>

fun leadingDigit :: "nat \<Rightarrow> nat" where
  "leadingDigit n = (if n < 10 then n else leadingDigit (n div 10))"

fun decimalDigits :: "nat \<Rightarrow> nat" where
  "decimalDigits n = (if n < 10 then 1 else Suc (decimalDigits (n div 10)))"

declare leadingDigit.simps [simp del] decimalDigits.simps [simp del]

text \<open>
  The first significant digit of \<open>y > 0\<close>: with \<open>k\<close> the number of digits of
  \<open>\<lfloor>1 / y\<rfloor>\<close>, the number \<open>y * 10\<^sup>k\<close> is at least 1 and has the digits of \<open>y\<close>.
\<close>

definition mantissaDigit :: "rat \<Rightarrow> int" where
  "mantissaDigit y = int (leadingDigit (nat \<lfloor>y * 10 ^ decimalDigits (nat \<lfloor>1 / y\<rfloor>)\<rfloor>))"

definition parseInt_toString :: "rat \<Rightarrow> int" where
  "parseInt_toString x =
     (if plainDecimal x then (if 0 \<le> x then \<lfloor>x\<rfloor> else \<lceil>x\<rceil>)
      else if 0 < x then mantissaDigit x
      else - mantissaDigit (- x))"

text \<open>The per-frame record held in the \<^verbatim>\<open>frameStates\<close> map.\<close>

record frame_state =
  hasOpen :: bool
  hasClose :: bool
  openTime :: "int option"
  closeTime :: "int option"

text \<open>
  The three locals of the first pass. \<^verbatim>\<open>frameStates\<close> is a JavaScript
  \<^verbatim>\<open>Map\<close>, which iterates in insertion order and keeps the position of a key that
  is set again: an association list updated with \<^const>\<open>AList.update\<close>.
\<close>

record first_pass =
  framesInInterval :: "nat set"
  frameStates :: "(nat \<times> frame_state) list"
  filteredEvents :: "event list"

definition inInterval :: "rat \<Rightarrow> rat \<Rightarrow> event \<Rightarrow> bool" where
  "inInterval intervalStart intervalEnd ev \<longleftrightarrow>
     intervalStart \<le> of_int (at' ev) \<and> of_int (at' ev) \<le> intervalEnd"

definition firstPassStep :: "rat \<Rightarrow> rat \<Rightarrow> first_pass \<Rightarrow> event \<Rightarrow> first_pass" where
  "firstPassStep intervalStart intervalEnd st ev =
     (if inInterval intervalStart intervalEnd ev then
        let fii = insert (frame ev) (framesInInterval st);
            fs = (if map_of (frameStates st) (frame ev) = None
                  then AList.update (frame ev)
                         \<lparr>hasOpen = False, hasClose = False, openTime = None, closeTime = None\<rparr>
                         (frameStates st)
                  else frameStates st);
            frameState = the (map_of fs (frame ev))
        in (case type ev of
              Open \<Rightarrow>
                \<lparr>framesInInterval = fii,
                 frameStates = AList.update (frame ev)
                    (frameState\<lparr>hasOpen := True, openTime := Some (at' ev)\<rparr>) fs,
                 filteredEvents = filteredEvents st @ [ev]\<rparr>
            | Close \<Rightarrow>
                \<lparr>framesInInterval = fii,
                 frameStates = AList.update (frame ev)
                    (frameState\<lparr>hasClose := True, closeTime := Some (at' ev)\<rparr>) fs,
                 filteredEvents = filteredEvents st @ [ev]\<rparr>)
      else st)"

definition firstPass :: "event list \<Rightarrow> rat \<Rightarrow> rat \<Rightarrow> first_pass" where
  "firstPass events intervalStart intervalEnd =
     foldl (firstPassStep intervalStart intervalEnd)
       \<lparr>framesInInterval = {}, frameStates = [], filteredEvents = []\<rparr> events"

text \<open>The second pass: at most one synthetic event for every entry of the map.\<close>

definition syntheticFor :: "rat \<Rightarrow> rat \<Rightarrow> nat \<times> frame_state \<Rightarrow> event list" where
  "syntheticFor intervalStart intervalEnd entry =
     (case entry of (frameId, frameState) \<Rightarrow>
        if hasOpen frameState \<and> \<not> hasClose frameState then
          [\<lparr>type = Close, frame = frameId, at' = parseInt_toString intervalEnd\<rparr>]
        else if \<not> hasOpen frameState \<and> hasClose frameState then
          [\<lparr>type = Open, frame = frameId, at' = parseInt_toString intervalStart\<rparr>]
        else [])"

definition syntheticEvents :: "event list \<Rightarrow> rat \<Rightarrow> rat \<Rightarrow> event list" where
  "syntheticEvents events intervalStart intervalEnd =
     concat (map (syntheticFor intervalStart intervalEnd)
       (frameStates (firstPass events intervalStart intervalEnd)))"

text \<open>
  \<^verbatim>\<open>allEvents.sort((a, b) => a.at - b.at)\<close> is a stable sort on the key \<open>at\<close>,
  as is \<^const>\<open>sort_key\<close>.
\<close>

definition filterEventsWithContext :: "event list \<Rightarrow> rat \<Rightarrow> rat \<Rightarrow> event list" where
  "filterEventsWithContext events intervalStart intervalEnd =
     (let allEvents = filteredEvents (firstPass events intervalStart intervalEnd)
                      @ syntheticEvents events intervalStart intervalEnd
      in sort_key at' allEvents)"

text \<open>Bookkeeping used to state the properties of the two passes.\<close>

definition seenOpen :: "(nat \<times> frame_state) list \<Rightarrow> nat \<Rightarrow> bool" where
  "seenOpen fs f = (case map_of fs f of None \<Rightarrow> False | Some x \<Rightarrow> hasOpen x)"

definition seenClose :: "(nat \<times> frame_state) list \<Rightarrow> nat \<Rightarrow> bool" where
  "seenClose fs f = (case map_of fs f of None \<Rightarrow> False | Some x \<Rightarrow> hasClose x)"

definition countOf :: "event_type \<Rightarrow> nat \<Rightarrow> event list \<Rightarrow> nat" where
  "countOf t f evs = length (filter (\<lambda>x. frame x = f \<and> type x = t) evs)"

section \<open>Frame interning and event generation\<close>

text \<open>
  A property of a frame object may be \<^verbatim>\<open>undefined\<close>, \<^verbatim>\<open>null\<close> or a value; the
  test \<^verbatim>\<open>x != null\<close> is false for the first two.
\<close>

datatype 'a js_value = Undefined | Null | Value 'a

record profile_frame =
  name :: string
  "file" :: "string js_value"
  line :: "int js_value"
  col :: "int js_value"

text \<open>
  The record pushed on the frame table: \<open>sf_file\<close>, \<open>sf_line\<close> and \<open>sf_col\<close> are
  \<open>None\<close> when the property is not set on the serialized object.
\<close>

record serialized_frame =
  sf_name :: string
  sf_file :: "string option"
  sf_line :: "int option"
  sf_col :: "int option"

text \<open>
  \<^verbatim>\<open>indexForFrame\<close> is a \<^verbatim>\<open>Map\<close> keyed by the frame object itself, so by its
  identity. A frame object is modelled as a reference into a heap of frame records;
  two references may hold records with equal fields.
\<close>

type_synonym frame_ref = nat

record interner =
  frames :: "serialized_frame list"
  indexForFrame :: "frame_ref \<rightharpoonup> nat"

definition serializedFrame :: "profile_frame \<Rightarrow> serialized_frame" where
  "serializedFrame fobj =
     \<lparr>sf_name = name fobj,
      sf_file = (case file fobj of Value v \<Rightarrow> Some v | _ \<Rightarrow> None),
      sf_line = (case line fobj of Value v \<Rightarrow> Some v | _ \<Rightarrow> None),
      sf_col = (case col fobj of Value v \<Rightarrow> Some v | _ \<Rightarrow> None)\<rparr>"

definition getIndexForFrame ::
  "(frame_ref \<Rightarrow> profile_frame) \<Rightarrow> frame_ref \<Rightarrow> interner \<Rightarrow> nat \<times> interner" where
  "getIndexForFrame heap fr st =
     (case indexForFrame st fr of
        Some index \<Rightarrow> (index, st)
      | None \<Rightarrow>
          (let index = length (frames st)
           in (index,
               \<lparr>frames = frames st @ [serializedFrame (heap fr)],
                indexForFrame = (indexForFrame st)(fr \<mapsto> index)\<rparr>)))"

text \<open>
  \<^verbatim>\<open>forEachCall(openFrame, closeFrame)\<close> belongs to the profile library; what the
  export sees of it is the sequence of callback invocations, each with the frame of
  the node and a weight.
\<close>

datatype call = OpenCall frame_ref rat | CloseCall frame_ref rat

fun callFrame :: "call \<Rightarrow> frame_ref" where
  "callFrame (OpenCall fr v) = fr"
| "callFrame (CloseCall fr v) = fr"

definition openFrame ::
  "(frame_ref \<Rightarrow> profile_frame) \<Rightarrow> frame_ref \<Rightarrow> rat \<Rightarrow> interner \<times> event list
     \<Rightarrow> interner \<times> event list" where
  "openFrame heap fr v acc =
     (case acc of (st, evs) \<Rightarrow>
        (case getIndexForFrame heap fr st of (index, st') \<Rightarrow>
           (st', evs @ [\<lparr>type = Open, frame = index, at' = parseInt_toString v\<rparr>])))"

definition closeFrame ::
  "(frame_ref \<Rightarrow> profile_frame) \<Rightarrow> frame_ref \<Rightarrow> rat \<Rightarrow> interner \<times> event list
     \<Rightarrow> interner \<times> event list" where
  "closeFrame heap fr v acc =
     (case acc of (st, evs) \<Rightarrow>
        (case getIndexForFrame heap fr st of (index, st') \<Rightarrow>
           (st', evs @ [\<lparr>type = Close, frame = index, at' = parseInt_toString v\<rparr>])))"

fun forEachCall ::
  "(frame_ref \<Rightarrow> profile_frame) \<Rightarrow> call list \<Rightarrow> interner \<times> event list
     \<Rightarrow> interner \<times> event list" where
  "forEachCall heap [] acc = acc"
| "forEachCall heap (OpenCall fr v # cs) acc = forEachCall heap cs (openFrame heap fr v acc)"
| "forEachCall heap (CloseCall fr v # cs) acc = forEachCall heap cs (closeFrame heap fr v acc)"

text \<open>The event that a callback pushes, given the index that the interner returned.\<close>

fun callEvent :: "call \<Rightarrow> nat \<Rightarrow> event" where
  "callEvent (OpenCall fr v) index = \<lparr>type = Open, frame = index, at' = parseInt_toString v\<rparr>"
| "callEvent (CloseCall fr v) index = \<lparr>type = Close, frame = index, at' = parseInt_toString v\<rparr>"

definition generateEvents ::
  "(frame_ref \<Rightarrow> profile_frame) \<Rightarrow> call list \<Rightarrow> interner \<times> event list" where
  "generateEvents heap calls =
     forEachCall heap calls (\<lparr>frames = [], indexForFrame = Map.empty\<rparr>, [])"

text \<open>
  The order in which a table lists the keys of a stream when every key is entered at
  its first reference: the first key, then the others in the same way.
\<close>

function firstReferenceOrder :: "'a list \<Rightarrow> 'a list" where
  "firstReferenceOrder [] = []"
| "firstReferenceOrder (x # xs) = x # firstReferenceOrder (removeAll x xs)"
  by pat_completeness auto
termination
  by (relation "measure length") (simp_all add: less_Suc_eq_le)

text \<open>A map from keys to indices that numbers the keys of \<open>rs\<close> by position.\<close>

definition interned :: "'k list \<Rightarrow> ('k \<rightharpoonup> nat) \<Rightarrow> bool" where
  "interned rs m \<longleftrightarrow>
     distinct rs \<and> dom m = set rs \<and> (\<forall>k<length rs. m (rs ! k) = Some k)"

section \<open>Frame compaction\<close>

text \<open>
  \<^verbatim>\<open>frames[i]\<close> on a JavaScript array: the cell, or \<^verbatim>\<open>undefined\<close> (here \<open>None\<close>)
  when \<open>i\<close> is not an index of the array. A cell holds a reference to a frame record;
  the type \<open>'f\<close> of cell contents is arbitrary, so equal cells are the same object.
\<close>

definition js_index :: "'f option list \<Rightarrow> nat \<Rightarrow> 'f option" where
  "js_index xs i = (if i < length xs then xs ! i else None)"

definition compressStep ::
  "'f option list \<Rightarrow> (nat \<rightharpoonup> nat) \<times> 'f option list \<Rightarrow> event
     \<Rightarrow> (nat \<rightharpoonup> nat) \<times> 'f option list" where
  "compressStep oldFrames acc ev =
     (case acc of (oldToNew, newFrames) \<Rightarrow>
        if oldToNew (frame ev) = None then
          (let newIndex = length newFrames
           in (oldToNew(frame ev \<mapsto> newIndex), newFrames @ [js_index oldFrames (frame ev)]))
        else (oldToNew, newFrames))"

text \<open>
  The result \<^verbatim>\<open>{frames: newFrames, events: remapped}\<close> is the pair
  \<open>(newFrames, remapped)\<close>. The set \<^verbatim>\<open>used\<close> that the source fills first is never
  read. \<^verbatim>\<open>oldToNew.get(ev.frame)!\<close> is defined for every event, as the loop has
  entered its frame.
\<close>

definition compressFramesAndRemap ::
  "'f option list \<Rightarrow> event list \<Rightarrow> 'f option list \<times> event list" where
  "compressFramesAndRemap oldFrames evs =
     (case foldl (compressStep oldFrames) (Map.empty, []) evs of (oldToNew, newFrames) \<Rightarrow>
        let remapped = map (\<lambda>ev. ev\<lparr>frame := the (oldToNew (frame ev))\<rparr>) evs
        in (newFrames, remapped))"

section \<open>The export\<close>

text \<open>
  The part of the exported document that depends on the window: \<^verbatim>\<open>shared.frames\<close>
  and, of \<^verbatim>\<open>profiles[0]\<close>, \<^verbatim>\<open>startValue\<close>, \<^verbatim>\<open>endValue\<close> and
  \<^verbatim>\<open>events\<close>. The other fields are constants or strings of the profile's formatter.
  The type \<open>'c\<close> is that of a cell of the frame table.
\<close>

record 'c exported_data =
  shared_frames :: "'c list"
  profile_startValue :: int
  profile_endValue :: int
  profile_events :: "event list"

text \<open>
  \<^verbatim>\<open>handleExportJson\<close> of \<^verbatim>\<open>views/interval-selector.tsx\<close>; the later revision of
  the component builds the same document in \<^verbatim>\<open>generateFilteredJsonData\<close>.
  \<^verbatim>\<open>filteredEvents.sort(...)\<close> sorts the array in place and returns it, so
  \<^verbatim>\<open>events: filteredEvents\<close> is the sorted array. Nothing in the body compares the
  two bounds of the window, and the \<^verbatim>\<open>catch\<close> only receives what the profile
  library or the browser throw.
\<close>

definition handleExportJson ::
  "(frame_ref \<Rightarrow> profile_frame) \<Rightarrow> call list \<Rightarrow> rat \<Rightarrow> rat
     \<Rightarrow> serialized_frame exported_data" where
  "handleExportJson heap calls startValue endValue =
     (case generateEvents heap calls of (st, events) \<Rightarrow>
        let filteredEvents = filterEventsWithContext events startValue endValue;
            sortedEvents = sort_key at' filteredEvents;
            profileStartValue =
              (if length sortedEvents > 0
               then parseInt_toString (of_int (at' (sortedEvents ! 0))) else 0);
            profileEndValue =
              (if length sortedEvents > 0
               then parseInt_toString (of_int (at' (sortedEvents ! (length sortedEvents - 1))))
               else 0)
        in \<lparr>shared_frames = frames st,
            profile_startValue = profileStartValue,
            profile_endValue = profileEndValue,
            profile_events = sortedEvents\<rparr>)"

text \<open>
  \<^verbatim>\<open>handleExportJson\<close> of the later revision of the component: it compacts the
  frame table between the filter and the sort, and exports the compacted table
  \<^verbatim>\<open>framesSlim\<close> and the rewritten events. A cell of the interned table is a
  record, never \<^verbatim>\<open>undefined\<close>.
\<close>

definition handleExportJsonCompressed ::
  "(frame_ref \<Rightarrow> profile_frame) \<Rightarrow> call list \<Rightarrow> rat \<Rightarrow> rat
     \<Rightarrow> serialized_frame option exported_data" where
  "handleExportJsonCompressed heap calls startValue endValue =
     (case generateEvents heap calls of (st, events) \<Rightarrow>
        let compressed = compressFramesAndRemap (map Some (frames st))
                           (filterEventsWithContext events startValue endValue);
            framesSlim = fst compressed;
            filteredEvents = snd compressed;
            sortedEvents = sort_key at' filteredEvents;
            profileStartValue =
              (if length sortedEvents > 0
               then parseInt_toString (of_int (at' (sortedEvents ! 0))) else 0);
            profileEndValue =
              (if length sortedEvents > 0
               then parseInt_toString (of_int (at' (sortedEvents ! (length sortedEvents - 1))))
               else 0)
        in \<lparr>shared_frames = framesSlim,
            profile_startValue = profileStartValue,
            profile_endValue = profileEndValue,
            profile_events = sortedEvents\<rparr>)"

section \<open>Concrete profiles\<close>

text \<open>
  Scenario A: \<open>main[0,900]\<close>, \<open>A[100,800]\<close>, \<open>B[200,500]\<close>, \<open>C[300,400]\<close>,
  \<open>D[600,700]\<close>, with the frames numbered 0 to 4 in this order.
\<close>

definition scenarioA :: "event list" where
  "scenarioA =
    [\<lparr>type = Open, frame = 0, at' = 0\<rparr>, \<lparr>type = Open, frame = 1, at' = 100\<rparr>,
     \<lparr>type = Open, frame = 2, at' = 200\<rparr>, \<lparr>type = Open, frame = 3, at' = 300\<rparr>,
     \<lparr>type = Close, frame = 3, at' = 400\<rparr>, \<lparr>type = Close, frame = 2, at' = 500\<rparr>,
     \<lparr>type = Open, frame = 4, at' = 600\<rparr>, \<lparr>type = Close, frame = 4, at' = 700\<rparr>,
     \<lparr>type = Close, frame = 1, at' = 800\<rparr>, \<lparr>type = Close, frame = 0, at' = 900\<rparr>]"

text \<open>
  The calls that the profile of scenario A makes, and its five frame objects, none of
  which has a source location.
\<close>

definition callsA :: "call list" where
  "callsA =
    [OpenCall 0 0, OpenCall 1 100, OpenCall 2 200, OpenCall 3 300, CloseCall 3 400,
     CloseCall 2 500, OpenCall 4 600, CloseCall 4 700, CloseCall 1 800, CloseCall 0 900]"

definition heapA :: "frame_ref \<Rightarrow> profile_frame" where
  "heapA r =
     \<lparr>name = (if r = 0 then ''main'' else if r = 1 then ''A'' else if r = 2 then ''B''
              else if r = 3 then ''C'' else ''D''),
      file = Undefined, line = Undefined, col = Undefined\<rparr>"

text \<open>A frame that calls itself: \<open>f[0,9]\<close> around \<open>f[1,2]\<close>.\<close>

definition recursiveStream :: "event list" where
  "recursiveStream =
    [\<lparr>type = Open, frame = 0, at' = 0\<rparr>, \<lparr>type = Open, frame = 0, at' = 1\<rparr>,
     \<lparr>type = Close, frame = 0, at' = 2\<rparr>, \<lparr>type = Close, frame = 0, at' = 9\<rparr>]"

text \<open>Two frame objects with the same fields: every reference holds the same record.\<close>

definition twinHeap :: "frame_ref \<Rightarrow> profile_frame" where
  "twinHeap r = \<lparr>name = ''f'', file = Value ''a.js'', line = Null, col = Undefined\<rparr>"

section \<open>Properties of the interval filter\<close>

subsection \<open>Arithmetic of the truncation\<close>

lemma floor_rat_numeral_divide:
  "\<lfloor>numeral a / numeral b :: rat\<rfloor> = numeral a div numeral b"
  by (metis floor_divide_of_int_eq of_int_numeral)

lemma ceiling_rat_numeral_divide:
  "\<lceil>numeral a / numeral b :: rat\<rceil> = - (- numeral a div numeral b)"
  using ceiling_divide_eq_div [of "numeral a" "numeral b", where ?'a = rat] by simp

lemma leadingDigit_less: "leadingDigit n < 10"
  by (induction n rule: leadingDigit.induct) (subst leadingDigit.simps, simp)

lemma mantissaDigit_range: "0 \<le> mantissaDigit y \<and> mantissaDigit y < 10"
  using leadingDigit_less [of "nat \<lfloor>y * 10 ^ decimalDigits (nat \<lfloor>1 / y\<rfloor>)\<rfloor>"]
  by (simp add: mantissaDigit_def)

lemma parseInt_toString_exponent:
  "parseInt_toString (1 / 2000000) = 5 \<and> parseInt_toString (3 / 20000000) = 1 \<and>
   parseInt_toString (10 ^ 21) = 1 \<and> parseInt_toString (- (1 / 2000000)) = - 5"
  by (simp add: parseInt_toString_def plainDecimal_def mantissaDigit_def leadingDigit.simps
      decimalDigits.simps floor_rat_numeral_divide)

lemma parseInt_toString_plain:
  "plainDecimal x \<Longrightarrow> parseInt_toString x = (if 0 \<le> x then \<lfloor>x\<rfloor> else \<lceil>x\<rceil>)"
  by (simp add: parseInt_toString_def)

lemma parseInt_toString_bounds:
  "plainDecimal x \<Longrightarrow> \<lfloor>x\<rfloor> \<le> parseInt_toString x \<and> parseInt_toString x \<le> \<lceil>x\<rceil>"
  by (simp add: parseInt_toString_plain floor_le_ceiling)

lemma parseInt_toString_nonneg:
  "plainDecimal x \<Longrightarrow> 0 \<le> x \<Longrightarrow>
   0 \<le> parseInt_toString x \<and> of_int (parseInt_toString x) \<le> x"
  by (simp add: parseInt_toString_plain)

lemma parseInt_toString_nonpos:
  "plainDecimal x \<Longrightarrow> x \<le> 0 \<Longrightarrow>
   parseInt_toString x \<le> 0 \<and> x \<le> of_int (parseInt_toString x)"
  by (auto simp: parseInt_toString_plain ceiling_le_zero)

lemma parseInt_toString_small: "\<bar>parseInt_toString x\<bar> < 10 ^ 21"
proof (cases "plainDecimal x")
  case True
  then have x: "\<bar>x\<bar> < 10 ^ 21" by (auto simp: plainDecimal_def)
  show ?thesis
  proof (cases "0 \<le> x")
    case True
    with x have "\<lfloor>x\<rfloor> < 10 ^ 21" and "0 \<le> \<lfloor>x\<rfloor>"
      by (simp_all add: floor_less_iff)
    with True \<open>plainDecimal x\<close> show ?thesis by (simp add: parseInt_toString_plain)
  next
    case False
    from x have "rat_of_int (- (10 ^ 21)) < x" by simp
    then have "- (10 ^ 21) < \<lceil>x\<rceil>" by (simp only: less_ceiling_iff)
    moreover from False have "\<lceil>x\<rceil> \<le> 0" by (simp add: ceiling_le_zero)
    ultimately have "\<bar>\<lceil>x\<rceil>\<bar> < 10 ^ 21" by linarith
    with False \<open>plainDecimal x\<close> show ?thesis by (simp add: parseInt_toString_plain)
  qed
next
  case False
  with mantissaDigit_range [of x] mantissaDigit_range [of "- x"] show ?thesis
    by (simp add: parseInt_toString_def)
qed

lemma plainDecimal_of_int: "\<bar>n\<bar> < 10 ^ 21 \<Longrightarrow> plainDecimal (of_int n)"
proof -
  assume n: "\<bar>n\<bar> < 10 ^ 21"
  show ?thesis
  proof (cases "n = 0")
    case True
    then show ?thesis by (simp add: plainDecimal_def)
  next
    case False
    then have "1 \<le> \<bar>n\<bar>" by simp
    then have "(1::rat) \<le> of_int \<bar>n\<bar>" by (simp only: of_int_1_le_iff)
    moreover from n have "(of_int \<bar>n\<bar> :: rat) < 10 ^ 21" by simp
    ultimately show ?thesis by (simp add: plainDecimal_def)
  qed
qed

lemma parseInt_toString_of_int: "\<bar>n\<bar> < 10 ^ 21 \<Longrightarrow> parseInt_toString (of_int n) = n"
  by (simp add: parseInt_toString_plain plainDecimal_of_int)

lemma synthetic_window:
  assumes "s \<le> e" and "a = parseInt_toString e \<or> a = parseInt_toString s"
    and ps: "plainDecimal s" and pe: "plainDecimal e"
  shows "\<lfloor>s\<rfloor> \<le> a \<and> a \<le> \<lceil>e\<rceil> \<and>
         (s \<in> \<int> \<or> s \<le> 0 \<longrightarrow> s \<le> of_int a) \<and> (e \<in> \<int> \<or> 0 \<le> e \<longrightarrow> of_int a \<le> e)"
proof -
  have fl: "\<lfloor>s\<rfloor> \<le> \<lfloor>e\<rfloor>" and ce: "\<lceil>s\<rceil> \<le> \<lceil>e\<rceil>"
    using assms(1) by (simp_all add: floor_mono ceiling_mono)
  have b: "\<lfloor>s\<rfloor> \<le> a \<and> a \<le> \<lceil>e\<rceil>"
    using assms(2) fl ce parseInt_toString_bounds [OF ps] parseInt_toString_bounds [OF pe]
      floor_le_ceiling [of s] floor_le_ceiling [of e]
    by auto
  have lo1: "s \<le> of_int a" if "s \<in> \<int>"
    using that b by (auto elim!: Ints_cases)
  have hi1: "of_int a \<le> e" if "e \<in> \<int>"
    using that b by (auto elim!: Ints_cases)
  have lo2: "s \<le> of_int a" if "s \<le> 0"
  proof (cases "e \<le> 0")
    case True
    with assms(1,2) that parseInt_toString_nonpos [OF ps] parseInt_toString_nonpos [OF pe]
    show ?thesis by auto
  next
    case False
    then have "0 \<le> parseInt_toString e"
      using parseInt_toString_nonneg [OF pe] by simp
    then have "(0::rat) \<le> of_int (parseInt_toString e)" by simp
    with assms(1,2) that parseInt_toString_nonpos [OF ps]
    show ?thesis by auto
  qed
  have hi2: "of_int a \<le> e" if "0 \<le> e"
  proof (cases "0 \<le> s")
    case True
    with assms(1,2) that parseInt_toString_nonneg [OF ps] parseInt_toString_nonneg [OF pe]
    show ?thesis by auto
  next
    case False
    then have "parseInt_toString s \<le> 0"
      using parseInt_toString_nonpos [OF ps] by simp
    then have "of_int (parseInt_toString s) \<le> (0::rat)" by simp
    with assms(1,2) that parseInt_toString_nonneg [OF pe]
    show ?thesis by auto
  qed
  from b lo1 lo2 hi1 hi2 show ?thesis by blast
qed

text \<open>The definitions that a concrete run of the filter unfolds.\<close>

lemmas filter_eval = filterEventsWithContext_def syntheticEvents_def firstPass_def
  firstPassStep_def inInterval_def syntheticFor_def parseInt_toString_def plainDecimal_def
  Let_def floor_rat_numeral_divide ceiling_rat_numeral_divide

subsection \<open>The first pass\<close>

text \<open>
  After the first pass \<open>filteredEvents\<close> holds the events of the window in their
  order, the keys of \<open>frameStates\<close> are the frames of these events, each once, and
  the two flags of a frame say whether an Open and whether a Close of it was seen.
\<close>

lemma seenOpen_Nil: "seenOpen [] f = False"
  by (simp add: seenOpen_def)

lemma seenClose_Nil: "seenClose [] f = False"
  by (simp add: seenClose_def)

lemma firstPassStep_filteredEvents:
  "filteredEvents (firstPassStep s e st ev) =
     filteredEvents st @ (if inInterval s e ev then [ev] else [])"
  by (cases "type ev") (simp_all add: firstPassStep_def Let_def)

lemma firstPassStep_framesInInterval:
  "framesInInterval (firstPassStep s e st ev) =
     framesInInterval st \<union> (if inInterval s e ev then {frame ev} else {})"
  by (cases "type ev") (simp_all add: firstPassStep_def Let_def)

lemma firstPassStep_keys:
  "fst ` set (frameStates (firstPassStep s e st ev)) =
     fst ` set (frameStates st) \<union> (if inInterval s e ev then {frame ev} else {})"
  by (cases "type ev") (auto simp: firstPassStep_def Let_def AList.dom_update)

lemma firstPassStep_distinct:
  "distinct (map fst (frameStates st)) \<Longrightarrow>
   distinct (map fst (frameStates (firstPassStep s e st ev)))"
  by (cases "type ev") (simp_all add: firstPassStep_def Let_def AList.distinct_update)

lemma firstPassStep_seenOpen:
  "seenOpen (frameStates (firstPassStep s e st ev)) f \<longleftrightarrow>
     seenOpen (frameStates st) f \<or> (inInterval s e ev \<and> frame ev = f \<and> type ev = Open)"
  by (cases "type ev")
     (auto simp: firstPassStep_def Let_def seenOpen_def AList.update_conv' split: option.splits)

lemma firstPassStep_seenClose:
  "seenClose (frameStates (firstPassStep s e st ev)) f \<longleftrightarrow>
     seenClose (frameStates st) f \<or> (inInterval s e ev \<and> frame ev = f \<and> type ev = Close)"
  by (cases "type ev")
     (auto simp: firstPassStep_def Let_def seenClose_def AList.update_conv' split: option.splits)

lemma foldl_filteredEvents:
  "filteredEvents (foldl (firstPassStep s e) st evs) =
     filteredEvents st @ filter (inInterval s e) evs"
  by (induction evs arbitrary: st) (simp_all add: firstPassStep_filteredEvents)

lemma foldl_framesInInterval:
  "framesInInterval (foldl (firstPassStep s e) st evs) =
     framesInInterval st \<union> frame ` set (filter (inInterval s e) evs)"
  by (induction evs arbitrary: st) (auto simp: firstPassStep_framesInInterval)

lemma foldl_keys:
  "fst ` set (frameStates (foldl (firstPassStep s e) st evs)) =
     fst ` set (frameStates st) \<union> frame ` set (filter (inInterval s e) evs)"
proof (induction evs arbitrary: st)
  case Nil
  show ?case by simp
next
  case (Cons ev evs)
  show ?case
    by (simp only: foldl_Cons Cons.IH firstPassStep_keys) auto
qed

lemma foldl_distinct:
  "distinct (map fst (frameStates st)) \<Longrightarrow>
   distinct (map fst (frameStates (foldl (firstPassStep s e) st evs)))"
  by (induction evs arbitrary: st) (simp_all add: firstPassStep_distinct)

lemma foldl_seenOpen:
  "seenOpen (frameStates (foldl (firstPassStep s e) st evs)) f \<longleftrightarrow>
     seenOpen (frameStates st) f \<or>
     (\<exists>ev \<in> set evs. inInterval s e ev \<and> frame ev = f \<and> type ev = Open)"
  by (induction evs arbitrary: st) (auto simp: firstPassStep_seenOpen)

lemma foldl_seenClose:
  "seenClose (frameStates (foldl (firstPassStep s e) st evs)) f \<longleftrightarrow>
     seenClose (frameStates st) f \<or>
     (\<exists>ev \<in> set evs. inInterval s e ev \<and> frame ev = f \<and> type ev = Close)"
  by (induction evs arbitrary: st) (auto simp: firstPassStep_seenClose)

lemma firstPass_filteredEvents:
  "filteredEvents (firstPass evs s e) = filter (inInterval s e) evs"
  by (simp add: firstPass_def foldl_filteredEvents)

lemma firstPass_framesInInterval:
  "framesInInterval (firstPass evs s e) = frame ` set (filter (inInterval s e) evs)"
  by (simp add: firstPass_def foldl_framesInInterval)

lemma firstPass_keys:
  "fst ` set (frameStates (firstPass evs s e)) = frame ` set (filter (inInterval s e) evs)"
  by (simp add: firstPass_def foldl_keys)

lemma firstPass_distinct: "distinct (map fst (frameStates (firstPass evs s e)))"
  by (simp add: firstPass_def foldl_distinct)

lemma firstPass_seenOpen:
  "seenOpen (frameStates (firstPass evs s e)) f \<longleftrightarrow>
     (\<exists>ev \<in> set evs. inInterval s e ev \<and> frame ev = f \<and> type ev = Open)"
  by (simp add: firstPass_def foldl_seenOpen seenOpen_Nil)

lemma firstPass_seenClose:
  "seenClose (frameStates (firstPass evs s e)) f \<longleftrightarrow>
     (\<exists>ev \<in> set evs. inInterval s e ev \<and> frame ev = f \<and> type ev = Close)"
  by (simp add: firstPass_def foldl_seenClose seenClose_Nil)

subsection \<open>The second pass and the result\<close>

lemma synthetic_count_Close:
  "distinct (map fst fs) \<Longrightarrow>
   length (filter (\<lambda>x. frame x = f \<and> type x = Close) (concat (map (syntheticFor s e) fs))) =
     (if seenOpen fs f \<and> \<not> seenClose fs f then 1 else 0)"
proof (induction fs)
  case Nil
  show ?case by (simp add: seenOpen_def)
next
  case (Cons p fs)
  obtain k v where p: "p = (k, v)" by (cases p)
  show ?case
  proof (cases "k = f")
    case True
    with Cons.prems p have "map_of fs f = None"
      by (simp add: map_of_eq_None_iff)
    with Cons p True show ?thesis
      by (simp add: seenOpen_def seenClose_def syntheticFor_def)
  next
    case False
    with Cons p show ?thesis
      by (simp add: seenOpen_def seenClose_def syntheticFor_def)
  qed
qed

lemma synthetic_count_Open:
  "distinct (map fst fs) \<Longrightarrow>
   length (filter (\<lambda>x. frame x = f \<and> type x = Open) (concat (map (syntheticFor s e) fs))) =
     (if \<not> seenOpen fs f \<and> seenClose fs f then 1 else 0)"
proof (induction fs)
  case Nil
  show ?case by (simp add: seenClose_def)
next
  case (Cons p fs)
  obtain k v where p: "p = (k, v)" by (cases p)
  show ?case
  proof (cases "k = f")
    case True
    with Cons.prems p have "map_of fs f = None"
      by (simp add: map_of_eq_None_iff)
    with Cons p True show ?thesis
      by (simp add: seenOpen_def seenClose_def syntheticFor_def)
  next
    case False
    with Cons p show ?thesis
      by (simp add: seenOpen_def seenClose_def syntheticFor_def)
  qed
qed

lemma length_synthetic_le: "length (concat (map (syntheticFor s e) fs)) \<le> length fs"
  by (induction fs) (auto simp: syntheticFor_def)

lemma synthetic_at:
  "x \<in> set (concat (map (syntheticFor s e) fs)) \<Longrightarrow>
   frame x \<in> fst ` set fs \<and>
   (at' x = parseInt_toString e \<or> at' x = parseInt_toString s)"
  by (induction fs) (auto simp: syntheticFor_def split: if_splits)

lemma synthetic_kind:
  "x \<in> set (concat (map (syntheticFor s e) fs)) \<Longrightarrow>
   (type x = Close \<and> at' x = parseInt_toString e) \<or>
   (type x = Open \<and> at' x = parseInt_toString s)"
  by (induction fs) (auto simp: syntheticFor_def split: if_splits)

lemma synthetic_in_window:
  assumes "x \<in> set (syntheticEvents evs s e)"
  obtains y where "y \<in> set evs" and "s \<le> of_int (at' y)" and "of_int (at' y) \<le> e"
proof -
  from assms have "frame x \<in> fst ` set (frameStates (firstPass evs s e))"
    unfolding syntheticEvents_def by (blast dest: synthetic_at)
  then obtain y where "y \<in> set evs" "inInterval s e y"
    by (auto simp: firstPass_keys)
  with that show thesis by (simp add: inInterval_def)
qed

lemma set_filterEventsWithContext:
  "set (filterEventsWithContext evs s e) =
     {ev \<in> set evs. inInterval s e ev} \<union> set (syntheticEvents evs s e)"
  by (auto simp: filterEventsWithContext_def Let_def firstPass_filteredEvents)

lemma filter_output_bounds:
  assumes "x \<in> set (filterEventsWithContext evs s e)"
    and "plainDecimal s" and "plainDecimal e"
  shows "\<lfloor>s\<rfloor> \<le> at' x \<and> at' x \<le> \<lceil>e\<rceil> \<and>
         (s \<in> \<int> \<or> s \<le> 0 \<longrightarrow> s \<le> of_int (at' x)) \<and>
         (e \<in> \<int> \<or> 0 \<le> e \<longrightarrow> of_int (at' x) \<le> e)"
proof (cases "x \<in> set (syntheticEvents evs s e)")
  case True
  then have k: "frame x \<in> fst ` set (frameStates (firstPass evs s e))"
    and a: "at' x = parseInt_toString e \<or> at' x = parseInt_toString s"
    unfolding syntheticEvents_def by (blast dest: synthetic_at)+
  from k obtain y where "y \<in> set evs" "inInterval s e y"
    by (auto simp: firstPass_keys)
  then have "s \<le> e" by (simp add: inInterval_def)
  from synthetic_window [OF this a assms(2,3)] show ?thesis .
next
  case False
  with assms(1) have "inInterval s e x"
    by (simp add: set_filterEventsWithContext)
  then show ?thesis
    by (simp add: inInterval_def floor_le_iff le_ceiling_iff le_floor_iff ceiling_le_iff)
qed

lemma ex_iff_countOf:
  "(\<exists>ev \<in> set evs. P ev \<and> frame ev = f \<and> type ev = t) \<longleftrightarrow> 0 < countOf t f (filter P evs)"
  by (auto simp: countOf_def filter_empty_conv)

lemma countOf_filterEventsWithContext_Open:
  "countOf Open f (filterEventsWithContext evs s e) =
     countOf Open f (filter (inInterval s e) evs) +
     (if countOf Open f (filter (inInterval s e) evs) = 0 \<and>
         0 < countOf Close f (filter (inInterval s e) evs) then 1 else 0)"
proof -
  have "countOf Open f (filterEventsWithContext evs s e) =
        countOf Open f (filter (inInterval s e) evs) +
        length (filter (\<lambda>x. frame x = f \<and> type x = Open)
          (concat (map (syntheticFor s e) (frameStates (firstPass evs s e)))))"
    by (simp add: countOf_def filterEventsWithContext_def Let_def filter_sort
        firstPass_filteredEvents syntheticEvents_def)
  then show ?thesis
    by (simp add: synthetic_count_Open [OF firstPass_distinct] firstPass_seenOpen
        firstPass_seenClose ex_iff_countOf)
qed

lemma countOf_filterEventsWithContext_Close:
  "countOf Close f (filterEventsWithContext evs s e) =
     countOf Close f (filter (inInterval s e) evs) +
     (if 0 < countOf Open f (filter (inInterval s e) evs) \<and>
         countOf Close f (filter (inInterval s e) evs) = 0 then 1 else 0)"
proof -
  have "countOf Close f (filterEventsWithContext evs s e) =
        countOf Close f (filter (inInterval s e) evs) +
        length (filter (\<lambda>x. frame x = f \<and> type x = Close)
          (concat (map (syntheticFor s e) (frameStates (firstPass evs s e)))))"
    by (simp add: countOf_def filterEventsWithContext_def Let_def filter_sort
        firstPass_filteredEvents syntheticEvents_def)
  then show ?thesis
    by (simp add: synthetic_count_Close [OF firstPass_distinct] firstPass_seenOpen
        firstPass_seenClose ex_iff_countOf)
qed

lemma length_filter_by_frame:
  "finite F \<Longrightarrow> frame ` set xs \<subseteq> F \<Longrightarrow>
   length (filter P xs) = (\<Sum>f\<in>F. length (filter (\<lambda>x. frame x = f \<and> P x) xs))"
proof (induction xs)
  case Nil
  show ?case by simp
next
  case (Cons x xs)
  then have IH: "length (filter P xs) = (\<Sum>f\<in>F. length (filter (\<lambda>x. frame x = f \<and> P x) xs))"
    and mem: "frame x \<in> F" and fin: "finite F"
    by simp_all
  have "(\<Sum>f\<in>F. length (filter (\<lambda>y. frame y = f \<and> P y) (x # xs))) =
        (\<Sum>f\<in>F. (if f = frame x then (if P x then 1 else 0) else 0) +
                  length (filter (\<lambda>y. frame y = f \<and> P y) xs))"
    by (rule sum.cong) auto
  also have "\<dots> = (if P x then 1 else 0) + length (filter P xs)"
    using mem fin by (simp add: sum.distrib IH)
  finally show ?case by simp
qed

lemma balanced_total:
  assumes "\<And>f. countOf Open f xs = countOf Close f xs"
  shows "length (filter (\<lambda>x. type x = Open) xs) = length (filter (\<lambda>x. type x = Close) xs)"
proof -
  have "length (filter (\<lambda>x. type x = t) xs) = (\<Sum>f\<in>frame ` set xs. countOf t f xs)" for t
    unfolding countOf_def by (rule length_filter_by_frame) simp_all
  with assms show ?thesis by simp
qed

lemma length_Open_Close:
  "length xs = length (filter (\<lambda>x. type x = Open) xs) + length (filter (\<lambda>x. type x = Close) xs)"
proof (induction xs)
  case Nil
  show ?case by simp
next
  case (Cons x xs)
  then show ?case by (cases "type x") simp_all
qed

lemma scenarioA_filter:
  "filterEventsWithContext scenarioA 200 600 =
    [\<lparr>type = Open, frame = 2, at' = 200\<rparr>, \<lparr>type = Open, frame = 3, at' = 300\<rparr>,
     \<lparr>type = Close, frame = 3, at' = 400\<rparr>, \<lparr>type = Close, frame = 2, at' = 500\<rparr>,
     \<lparr>type = Open, frame = 4, at' = 600\<rparr>, \<lparr>type = Close, frame = 4, at' = 600\<rparr>]"
  by (simp add: scenarioA_def filter_eval)

lemma scenarioA_synth:
  "syntheticEvents scenarioA 200 600 = [\<lparr>type = Close, frame = 4, at' = 600\<rparr>]"
  by (simp add: scenarioA_def filter_eval)

subsection \<open>Balance\<close>

text \<open>
  Claim C1, amended. The flags of the first pass are kept per frame index, not per
  call. In the result a frame index has as many Opens as Closes exactly when, among
  the events inside the window, it has as many Opens as Closes or a single event.
  When this holds for every frame index, the result has even length and every frame
  index has as many Opens as Closes.
\<close>

theorem filterEventsWithContext_balanced:
  "(\<forall>f. (countOf Open f (filterEventsWithContext events intervalStart intervalEnd) =
         countOf Close f (filterEventsWithContext events intervalStart intervalEnd)) =
        (countOf Open f (filter (inInterval intervalStart intervalEnd) events) =
           countOf Close f (filter (inInterval intervalStart intervalEnd) events) \<or>
         countOf Open f (filter (inInterval intervalStart intervalEnd) events) +
           countOf Close f (filter (inInterval intervalStart intervalEnd) events) = 1)) \<and>
   ((\<forall>f. countOf Open f (filter (inInterval intervalStart intervalEnd) events) =
           countOf Close f (filter (inInterval intervalStart intervalEnd) events) \<or>
         countOf Open f (filter (inInterval intervalStart intervalEnd) events) +
           countOf Close f (filter (inInterval intervalStart intervalEnd) events) = 1) \<longrightarrow>
    even (length (filterEventsWithContext events intervalStart intervalEnd)) \<and>
    (\<forall>f. countOf Open f (filterEventsWithContext events intervalStart intervalEnd) =
         countOf Close f (filterEventsWithContext events intervalStart intervalEnd)))"
proof -
  let ?out = "filterEventsWithContext events intervalStart intervalEnd"
  let ?win = "filter (inInterval intervalStart intervalEnd) events"
  have iff: "(countOf Open f ?out = countOf Close f ?out) =
      (countOf Open f ?win = countOf Close f ?win \<or>
       countOf Open f ?win + countOf Close f ?win = 1)" for f
    by (simp add: countOf_filterEventsWithContext_Open countOf_filterEventsWithContext_Close)
       arith
  have "even (length ?out)"
    if "\<forall>f. countOf Open f ?win = countOf Close f ?win \<or>
            countOf Open f ?win + countOf Close f ?win = 1"
  proof -
    from that iff have "countOf Open f ?out = countOf Close f ?out" for f
      by blast
    then have "length ?out = 2 * length (filter (\<lambda>x. type x = Open) ?out)"
      using balanced_total [of ?out] length_Open_Close [of ?out] by simp
    then show ?thesis by simp
  qed
  with iff show ?thesis by blast
qed

text \<open>The amended claim C1 on scenario A with the window \<open>[200, 600]\<close>.\<close>

theorem filterEventsWithContext_balanced_witness:
  "even (length (filterEventsWithContext scenarioA 200 600)) \<and>
   countOf Open 4 (filter (inInterval 200 600) scenarioA) = 1 \<and>
   countOf Close 4 (filter (inInterval 200 600) scenarioA) = 0 \<and>
   countOf Open 4 (filterEventsWithContext scenarioA 200 600) = 1 \<and>
   countOf Close 4 (filterEventsWithContext scenarioA 200 600) = 1"
proof -
  have h: "\<forall>f. countOf Open f (filter (inInterval 200 600) scenarioA) =
             countOf Close f (filter (inInterval 200 600) scenarioA) \<or>
           countOf Open f (filter (inInterval 200 600) scenarioA) +
             countOf Close f (filter (inInterval 200 600) scenarioA) = 1"
    by (simp add: countOf_def inInterval_def scenarioA_def)
  have "countOf Open 4 (filter (inInterval 200 600) scenarioA) = 1"
    and "countOf Close 4 (filter (inInterval 200 600) scenarioA) = 0"
    and "countOf Open 4 (filterEventsWithContext scenarioA 200 600) = 1"
    by (simp_all add: countOf_def inInterval_def scenarioA_filter) (simp_all add: scenarioA_def)
  with filterEventsWithContext_balanced [of scenarioA 200 600] h show ?thesis
    by simp
qed

text \<open>
  Claim C1 as stated fails on a frame that calls itself: of \<open>f[0,9]\<close> around
  \<open>f[1,2]\<close> the window \<open>[0, 5]\<close> holds two Opens and one Close, both flags are
  set, nothing is synthesized, and the result has three events.
\<close>

theorem filterEventsWithContext_balanced_counterexample:
  "(0::rat) \<le> 5 \<and>
   filterEventsWithContext recursiveStream 0 5 =
     [\<lparr>type = Open, frame = 0, at' = 0\<rparr>, \<lparr>type = Open, frame = 0, at' = 1\<rparr>,
      \<lparr>type = Close, frame = 0, at' = 2\<rparr>] \<and>
   \<not> even (length (filterEventsWithContext recursiveStream 0 5)) \<and>
   countOf Open 0 (filterEventsWithContext recursiveStream 0 5) = 2 \<and>
   countOf Close 0 (filterEventsWithContext recursiveStream 0 5) = 1"
  by (simp add: recursiveStream_def filter_eval countOf_def)

subsection \<open>Window containment\<close>

text \<open>
  Claim C2, amended. For a window with \<open>intervalStart \<le> intervalEnd\<close> whose bounds
  print in plain decimal notation, an event of the result is of one of three kinds. A
  selected event is an input event with \<open>intervalStart \<le> at \<le> intervalEnd\<close>. A
  synthetic Close has \<open>at\<close> equal to \<open>intervalEnd\<close> truncated toward zero; it has
  \<open>intervalStart \<le> at\<close>, and \<open>at \<le> intervalEnd\<close> when \<open>intervalEnd\<close> is an integer
  or not negative. A synthetic Open has \<open>at\<close> equal to \<open>intervalStart\<close> truncated
  toward zero; it has \<open>at \<le> intervalEnd\<close>, and \<open>intervalStart \<le> at\<close> when
  \<open>intervalStart\<close> is an integer or not positive. So every event of the result has
  \<open>\<lfloor>intervalStart\<rfloor> \<le> at \<le> \<lceil>intervalEnd\<rceil>\<close>, and lies in the window unless it is a
  synthetic Open for a positive fractional start or a synthetic Close for a negative
  fractional end.
\<close>

theorem filterEventsWithContext_window:
  assumes "intervalStart \<le> intervalEnd"
    and "plainDecimal intervalStart" and "plainDecimal intervalEnd"
    and "ev \<in> set (filterEventsWithContext events intervalStart intervalEnd)"
  shows "((ev \<in> set events \<and>
           intervalStart \<le> of_int (at' ev) \<and> of_int (at' ev) \<le> intervalEnd) \<or>
          (ev \<in> set (syntheticEvents events intervalStart intervalEnd) \<and> type ev = Close \<and>
           at' ev = (if 0 \<le> intervalEnd then \<lfloor>intervalEnd\<rfloor> else \<lceil>intervalEnd\<rceil>) \<and>
           intervalStart \<le> of_int (at' ev) \<and>
           (intervalEnd \<in> \<int> \<or> 0 \<le> intervalEnd \<longrightarrow> of_int (at' ev) \<le> intervalEnd)) \<or>
          (ev \<in> set (syntheticEvents events intervalStart intervalEnd) \<and> type ev = Open \<and>
           at' ev = (if 0 \<le> intervalStart then \<lfloor>intervalStart\<rfloor> else \<lceil>intervalStart\<rceil>) \<and>
           of_int (at' ev) \<le> intervalEnd \<and>
           (intervalStart \<in> \<int> \<or> intervalStart \<le> 0 \<longrightarrow> intervalStart \<le> of_int (at' ev)))) \<and>
         \<lfloor>intervalStart\<rfloor> \<le> at' ev \<and> at' ev \<le> \<lceil>intervalEnd\<rceil> \<and>
         (intervalStart \<in> \<int> \<or> intervalStart \<le> 0 \<longrightarrow> intervalStart \<le> of_int (at' ev)) \<and>
         (intervalEnd \<in> \<int> \<or> 0 \<le> intervalEnd \<longrightarrow> of_int (at' ev) \<le> intervalEnd)"
proof -
  let ?s = intervalStart and ?e = intervalEnd
  have all: "\<lfloor>?s\<rfloor> \<le> at' ev \<and> at' ev \<le> \<lceil>?e\<rceil> \<and>
         (?s \<in> \<int> \<or> ?s \<le> 0 \<longrightarrow> ?s \<le> of_int (at' ev)) \<and>
         (?e \<in> \<int> \<or> 0 \<le> ?e \<longrightarrow> of_int (at' ev) \<le> ?e)"
    using assms(4,2,3) by (rule filter_output_bounds)
  have kinds: "(ev \<in> set events \<and> ?s \<le> of_int (at' ev) \<and> of_int (at' ev) \<le> ?e) \<or>
          (ev \<in> set (syntheticEvents events ?s ?e) \<and> type ev = Close \<and>
           at' ev = (if 0 \<le> ?e then \<lfloor>?e\<rfloor> else \<lceil>?e\<rceil>) \<and> ?s \<le> of_int (at' ev)) \<or>
          (ev \<in> set (syntheticEvents events ?s ?e) \<and> type ev = Open \<and>
           at' ev = (if 0 \<le> ?s then \<lfloor>?s\<rfloor> else \<lceil>?s\<rceil>) \<and> of_int (at' ev) \<le> ?e)"
  proof (cases "ev \<in> set (syntheticEvents events ?s ?e)")
    case False
    with assms(4) have "ev \<in> set events" and "inInterval ?s ?e ev"
      by (simp_all add: set_filterEventsWithContext)
    then show ?thesis by (simp add: inInterval_def)
  next
    case True
    then obtain y where "y \<in> set events"
      and y: "?s \<le> of_int (at' y)" "of_int (at' y) \<le> ?e"
      by (rule synthetic_in_window)
    from True have "(type ev = Close \<and> at' ev = parseInt_toString ?e) \<or>
        (type ev = Open \<and> at' ev = parseInt_toString ?s)"
      unfolding syntheticEvents_def by (rule synthetic_kind)
    then show ?thesis
    proof
      assume c: "type ev = Close \<and> at' ev = parseInt_toString ?e"
      then have a: "at' ev = (if 0 \<le> ?e then \<lfloor>?e\<rfloor> else \<lceil>?e\<rceil>)"
        by (simp add: parseInt_toString_plain [OF assms(3)])
      have "at' y \<le> at' ev"
      proof (cases "0 \<le> ?e")
        case True
        with a y(2) show ?thesis by (simp add: le_floor_iff)
      next
        case False
        with a y(2) show ?thesis by (simp add: le_ceiling_iff; linarith)
      qed
      then have "(of_int (at' y) :: rat) \<le> of_int (at' ev)" by (simp only: of_int_le_iff)
      with y(1) have "?s \<le> of_int (at' ev)" by (rule order_trans)
      with True c a show ?thesis by blast
    next
      assume o: "type ev = Open \<and> at' ev = parseInt_toString ?s"
      then have a: "at' ev = (if 0 \<le> ?s then \<lfloor>?s\<rfloor> else \<lceil>?s\<rceil>)"
        by (simp add: parseInt_toString_plain [OF assms(2)])
      have "at' ev \<le> at' y"
      proof (cases "0 \<le> ?s")
        case True
        with a y(1) show ?thesis by (simp add: floor_le_iff; linarith)
      next
        case False
        with a y(1) show ?thesis by (simp add: ceiling_le_iff)
      qed
      then have "(of_int (at' ev) :: rat) \<le> of_int (at' y)" by (simp only: of_int_le_iff)
      with y(2) have "of_int (at' ev) \<le> ?e" by (rule order_trans [rotated])
      with True o a show ?thesis by blast
    qed
  qed
  from kinds all show ?thesis by blast
qed

text \<open>The amended claim C2 at the synthetic Close of scenario A.\<close>

theorem filterEventsWithContext_window_witness:
  "(200::rat) \<le> 600 \<and> plainDecimal 200 \<and> plainDecimal 600 \<and>
   \<lparr>type = Close, frame = 4, at' = 600\<rparr> \<in> set (filterEventsWithContext scenarioA 200 600) \<and>
   \<lparr>type = Close, frame = 4, at' = 600\<rparr> \<in> set (syntheticEvents scenarioA 200 600) \<and>
   \<lparr>type = Close, frame = 4, at' = 600\<rparr> \<notin> set scenarioA \<and>
   (200::rat) \<le> of_int (at' \<lparr>type = Close, frame = 4, at' = 600\<rparr>) \<and>
   of_int (at' \<lparr>type = Close, frame = 4, at' = 600\<rparr>) \<le> (600::rat)"
proof -
  have h1: "(200::rat) \<le> 600" by simp
  have h2: "plainDecimal 200" and h3: "plainDecimal 600"
    by (simp_all add: plainDecimal_def)
  have h4: "\<lparr>type = Close, frame = 4, at' = 600\<rparr> \<in> set (filterEventsWithContext scenarioA 200 600)"
    by (simp add: scenarioA_filter)
  have h5: "\<lparr>type = Close, frame = 4, at' = 600\<rparr> \<notin> set scenarioA"
    by (simp add: scenarioA_def)
  from filterEventsWithContext_window [OF h1 h2 h3 h4] h1 h2 h3 h4 h5 show ?thesis
    by (simp add: scenarioA_synth)
qed

text \<open>
  Claim C2 as stated fails for a fractional start: in the window \<open>[200.5, 600]\<close> the
  frame that closes at 300 gets its synthetic Open at \<open>parseInt("200.5") = 200\<close>,
  before the window.
\<close>

theorem filterEventsWithContext_window_counterexample:
  "(401 / 2 :: rat) \<le> 600 \<and> plainDecimal (401 / 2) \<and> plainDecimal 600 \<and>
   filterEventsWithContext
     [\<lparr>type = Open, frame = 0, at' = 100\<rparr>, \<lparr>type = Close, frame = 0, at' = 300\<rparr>] (401 / 2) 600 =
     [\<lparr>type = Open, frame = 0, at' = 200\<rparr>, \<lparr>type = Close, frame = 0, at' = 300\<rparr>] \<and>
   \<not> (401 / 2 :: rat) \<le> of_int (at' \<lparr>type = Open, frame = 0, at' = 200\<rparr>)"
  by (simp add: filter_eval plainDecimal_def)

subsection \<open>The number of synthetic events\<close>

text \<open>
  Claim C8. The result is the selected events and the synthetic ones, and there are at
  most twice as many synthetic events as distinct frame indices among the events of
  the window.
\<close>

theorem syntheticEvents_bound:
  "length (filterEventsWithContext events intervalStart intervalEnd) =
     length (filter (inInterval intervalStart intervalEnd) events) +
     length (syntheticEvents events intervalStart intervalEnd) \<and>
   length (syntheticEvents events intervalStart intervalEnd) \<le>
     2 * card (frame ` {ev \<in> set events. inInterval intervalStart intervalEnd ev})"
proof -
  let ?fs = "frameStates (firstPass events intervalStart intervalEnd)"
  have "length (syntheticEvents events intervalStart intervalEnd) \<le> length (map fst ?fs)"
    by (simp add: syntheticEvents_def length_synthetic_le)
  also have "\<dots> = card (set (map fst ?fs))"
    by (rule distinct_card [symmetric]) (rule firstPass_distinct)
  also have "set (map fst ?fs) = frame ` {ev \<in> set events. inInterval intervalStart intervalEnd ev}"
    by (simp add: firstPass_keys)
  finally show ?thesis
    by (simp add: filterEventsWithContext_def Let_def firstPass_filteredEvents)
qed

text \<open>Claim C8 on scenario A: one synthetic event, three frames in the window.\<close>

theorem syntheticEvents_bound_witness:
  "length (syntheticEvents scenarioA 200 600) = 1 \<and>
   card (frame ` {ev \<in> set scenarioA. inInterval 200 600 ev}) = 3 \<and>
   length (filterEventsWithContext scenarioA 200 600) = 6"
proof -
  have "frame ` {ev \<in> set scenarioA. inInterval 200 600 ev} =
        set (map frame (filter (inInterval 200 600) scenarioA))"
    by simp
  also have "\<dots> = {2, 3, 4}"
    by (simp add: scenarioA_def inInterval_def) blast
  finally have "card (frame ` {ev \<in> set scenarioA. inInterval 200 600 ev}) = 3"
    by simp
  with syntheticEvents_bound [of scenarioA 200 600] show ?thesis
    by (simp add: scenarioA_synth scenarioA_filter)
qed

subsection \<open>Scenario A\<close>

text \<open>
  Claim C4, amended. Filtering scenario A to \<open>[200, 600]\<close> selects five events, the
  four of B and C and the Open of D at 600, which the inclusive bound keeps; the only
  synthetic event is the Close of D at 600; no event of main or A is in the result.
\<close>

theorem scenarioA_output:
  "filter (inInterval 200 600) scenarioA =
     [\<lparr>type = Open, frame = 2, at' = 200\<rparr>, \<lparr>type = Open, frame = 3, at' = 300\<rparr>,
      \<lparr>type = Close, frame = 3, at' = 400\<rparr>, \<lparr>type = Close, frame = 2, at' = 500\<rparr>,
      \<lparr>type = Open, frame = 4, at' = 600\<rparr>] \<and>
   syntheticEvents scenarioA 200 600 = [\<lparr>type = Close, frame = 4, at' = 600\<rparr>] \<and>
   filterEventsWithContext scenarioA 200 600 =
     [\<lparr>type = Open, frame = 2, at' = 200\<rparr>, \<lparr>type = Open, frame = 3, at' = 300\<rparr>,
      \<lparr>type = Close, frame = 3, at' = 400\<rparr>, \<lparr>type = Close, frame = 2, at' = 500\<rparr>,
      \<lparr>type = Open, frame = 4, at' = 600\<rparr>, \<lparr>type = Close, frame = 4, at' = 600\<rparr>] \<and>
   0 \<notin> frame ` set (filterEventsWithContext scenarioA 200 600) \<and>
   1 \<notin> frame ` set (filterEventsWithContext scenarioA 200 600)"
  by (simp add: scenarioA_def filter_eval)

text \<open>
  Claim C4 as stated fails: the result holds the Open of D at 600, which is neither
  one of the four selected events that the claim lists nor a synthetic event.
\<close>

theorem scenarioA_output_counterexample:
  "\<lparr>type = Open, frame = 4, at' = 600\<rparr> \<in> set (filterEventsWithContext scenarioA 200 600) \<and>
   \<lparr>type = Open, frame = 4, at' = 600\<rparr> \<notin> set
     [\<lparr>type = Open, frame = 2, at' = 200\<rparr>, \<lparr>type = Open, frame = 3, at' = 300\<rparr>,
      \<lparr>type = Close, frame = 3, at' = 400\<rparr>, \<lparr>type = Close, frame = 2, at' = 500\<rparr>] \<and>
   \<lparr>type = Open, frame = 4, at' = 600\<rparr> \<notin> set (syntheticEvents scenarioA 200 600)"
  by (simp add: scenarioA_def filter_eval)

section \<open>Properties of frame interning\<close>

subsection \<open>Tables numbered by first reference\<close>

lemma set_firstReferenceOrder [simp]: "set (firstReferenceOrder xs) = set xs"
  by (induction xs rule: firstReferenceOrder.induct) auto

lemma distinct_firstReferenceOrder [simp]: "distinct (firstReferenceOrder xs)"
  by (induction xs rule: firstReferenceOrder.induct) auto

lemma firstReferenceOrder_map_inj:
  "inj_on g (set xs) \<Longrightarrow> firstReferenceOrder (map g xs) = map g (firstReferenceOrder xs)"
proof (induction xs rule: firstReferenceOrder.induct)
  case 1
  show ?case by simp
next
  case (2 x xs)
  from "2.prems" have rm: "map g (removeAll x xs) = removeAll (g x) (map g xs)"
    by (intro map_removeAll_inj_on) simp
  from "2.prems" have "inj_on g (set (removeAll x xs))"
    by (auto intro: inj_on_subset)
  with "2.IH" rm show ?case by simp
qed

lemma firstReferenceOrder_step:
  assumes "x \<notin> set rs"
  shows "rs @ firstReferenceOrder (filter (\<lambda>y. y \<notin> set rs) (x # xs)) =
   (rs @ [x]) @ firstReferenceOrder (filter (\<lambda>y. y \<notin> set (rs @ [x])) xs)"
proof -
  have "removeAll x (filter (\<lambda>y. y \<notin> set rs) xs) = filter (\<lambda>y. y \<notin> set (rs @ [x])) xs"
    by (induction xs) auto
  with assms show ?thesis by simp
qed

lemma interned_empty: "interned [] Map.empty"
  by (simp add: interned_def)

lemma interned_new:
  assumes "interned rs m" and "m x = None"
  shows "interned (rs @ [x]) (m(x \<mapsto> length rs))"
proof -
  from assms have nin: "x \<notin> set rs"
    unfolding interned_def by (metis domIff)
  have "(m(x \<mapsto> length rs)) ((rs @ [x]) ! k) = Some k" if "k < length (rs @ [x])" for k
  proof (cases "k < length rs")
    case True
    with nin have "rs ! k \<noteq> x" by (metis nth_mem)
    with True assms(1) show ?thesis by (simp add: interned_def nth_append)
  next
    case False
    with that have "k = length rs" by simp
    then show ?thesis by simp
  qed
  with assms(1) nin show ?thesis
    unfolding interned_def by auto
qed

lemma interned_dom: "interned rs m \<Longrightarrow> dom m = set rs"
  by (simp add: interned_def)

lemma interned_nth: "interned rs m \<Longrightarrow> k < length rs \<Longrightarrow> m (rs ! k) = Some k"
  by (simp add: interned_def)

lemma interned_lookup:
  assumes "interned rs m" and "m x = Some i"
  shows "i < length rs \<and> rs ! i = x"
proof -
  from assms(2) have "x \<in> dom m" by blast
  with assms(1) have "x \<in> set rs" by (simp add: interned_dom)
  then obtain k where k: "k < length rs" "rs ! k = x" by (auto simp: in_set_conv_nth)
  from interned_nth [OF assms(1) k(1)] k(2) assms(2) have "i = k" by simp
  with k show ?thesis by simp
qed

lemma interned_None: "interned rs m \<Longrightarrow> m x = None \<longleftrightarrow> x \<notin> set rs"
  using interned_dom [of rs m] by (auto simp: domIff)

lemma interned_the:
  assumes "interned rs m" and "x \<in> set rs"
  shows "the (m x) < length rs \<and> rs ! the (m x) = x"
proof -
  from assms have "x \<in> dom m" by (simp add: interned_dom)
  then obtain i where "m x = Some i" by blast
  with interned_lookup [OF assms(1) this] show ?thesis by simp
qed

lemma interned_upt:
  assumes "interned [0..<n] m" and "k < n"
  shows "m k = Some k"
  using interned_nth [OF assms(1), of k] assms(2) by simp

subsection \<open>The interner of the export\<close>

lemma getIndexForFrame_interned:
  assumes "interned rs (indexForFrame st)"
    and "frames st = map (\<lambda>r. serializedFrame (heap r)) rs"
    and "getIndexForFrame heap fr st = (i, st1)"
  shows "interned (if fr \<in> set rs then rs else rs @ [fr]) (indexForFrame st1) \<and>
         frames st1 = map (\<lambda>r. serializedFrame (heap r)) (if fr \<in> set rs then rs else rs @ [fr]) \<and>
         indexForFrame st1 fr = Some i"
proof (cases "indexForFrame st fr")
  case None
  with assms(1) have nin: "fr \<notin> set rs" by (simp add: interned_None)
  from None assms(3) have i: "i = length (frames st)"
    and st1: "st1 = \<lparr>frames = frames st @ [serializedFrame (heap fr)],
                     indexForFrame = (indexForFrame st)(fr \<mapsto> length (frames st))\<rparr>"
    by (auto simp: getIndexForFrame_def Let_def)
  from assms(2) have len: "length (frames st) = length rs" by simp
  from interned_new [OF assms(1) None] nin assms(2) show ?thesis
    by (simp add: st1 i len)
next
  case (Some k)
  with assms(3) have "i = k" "st1 = st" by (simp_all add: getIndexForFrame_def)
  moreover from Some have "fr \<in> dom (indexForFrame st)" by blast
  with assms(1) have "fr \<in> set rs" by (simp add: interned_dom)
  ultimately show ?thesis using assms(1,2) Some by simp
qed

lemma callback_step:
  assumes "getIndexForFrame heap (callFrame c) st = (i, st1)"
  shows "forEachCall heap (c # cs) (st, evs) = forEachCall heap cs (st1, evs @ [callEvent c i])"
  using assms by (cases c) (simp_all add: openFrame_def closeFrame_def)

lemma forEachCall_char:
  assumes "interned rs (indexForFrame st)"
    and "frames st = map (\<lambda>r. serializedFrame (heap r)) rs"
    and "forEachCall heap cs (st, evs) = (st', evs')"
  shows "interned (rs @ firstReferenceOrder (filter (\<lambda>y. y \<notin> set rs) (map callFrame cs)))
           (indexForFrame st') \<and>
         frames st' = map (\<lambda>r. serializedFrame (heap r))
           (rs @ firstReferenceOrder (filter (\<lambda>y. y \<notin> set rs) (map callFrame cs))) \<and>
         evs' = evs @ map (\<lambda>c. callEvent c (the (indexForFrame st' (callFrame c)))) cs"
  using assms
proof (induction cs arbitrary: rs st evs)
  case Nil
  then show ?case by simp
next
  case (Cons c cs)
  let ?fr = "callFrame c"
  let ?rs1 = "if ?fr \<in> set rs then rs else rs @ [?fr]"
  let ?rs' = "?rs1 @ firstReferenceOrder (filter (\<lambda>y. y \<notin> set ?rs1) (map callFrame cs))"
  obtain i st1 where g: "getIndexForFrame heap ?fr st = (i, st1)"
    by (cases "getIndexForFrame heap ?fr st")
  from getIndexForFrame_interned [OF Cons.prems(1,2) g]
  have i1: "interned ?rs1 (indexForFrame st1)"
    and f1: "frames st1 = map (\<lambda>r. serializedFrame (heap r)) ?rs1"
    and ix: "indexForFrame st1 ?fr = Some i"
    by blast+
  from Cons.prems(3) have run: "forEachCall heap cs (st1, evs @ [callEvent c i]) = (st', evs')"
    by (simp add: callback_step [OF g])
  from Cons.IH [OF i1 f1 run]
  have i': "interned ?rs' (indexForFrame st')"
    and f': "frames st' = map (\<lambda>r. serializedFrame (heap r)) ?rs'"
    and e': "evs' = (evs @ [callEvent c i]) @
               map (\<lambda>c. callEvent c (the (indexForFrame st' (callFrame c)))) cs"
    by blast+
  have eq: "?rs' = rs @ firstReferenceOrder (filter (\<lambda>y. y \<notin> set rs) (map callFrame (c # cs)))"
  proof (cases "?fr \<in> set rs")
    case True
    then show ?thesis by simp
  next
    case False
    with firstReferenceOrder_step [OF False, of "map callFrame cs"] show ?thesis by simp
  qed
  from interned_lookup [OF i1 ix] have il: "i < length ?rs1" and ir: "?rs1 ! i = ?fr"
    by blast+
  then have "?rs' ! i = ?fr" by (simp add: nth_append)
  moreover from il have "i < length ?rs'" by simp
  ultimately have "indexForFrame st' ?fr = Some i"
    using interned_nth [OF i', of i] by simp
  with e' have "evs' = evs @ map (\<lambda>c. callEvent c (the (indexForFrame st' (callFrame c)))) (c # cs)"
    by simp
  with i' f' eq show ?case by (simp only:)
qed

lemma generateEvents_char:
  assumes "generateEvents heap calls = (st, evs)"
  shows "interned (firstReferenceOrder (map callFrame calls)) (indexForFrame st) \<and>
         frames st = map (\<lambda>r. serializedFrame (heap r)) (firstReferenceOrder (map callFrame calls)) \<and>
         evs = map (\<lambda>c. callEvent c (the (indexForFrame st (callFrame c)))) calls"
proof -
  have "interned [] (indexForFrame \<lparr>frames = [], indexForFrame = Map.empty\<rparr>)"
    by (simp add: interned_empty)
  moreover have "frames \<lparr>frames = [], indexForFrame = Map.empty\<rparr> =
      map (\<lambda>r. serializedFrame (heap r)) []"
    by simp
  moreover from assms have "forEachCall heap calls (\<lparr>frames = [], indexForFrame = Map.empty\<rparr>, []) = (st, evs)"
    by (simp add: generateEvents_def)
  ultimately show ?thesis
    using forEachCall_char [of "[]" "\<lparr>frames = [], indexForFrame = Map.empty\<rparr>" heap calls "[]" st evs]
    by simp
qed

lemma frame_callEvent [simp]: "frame (callEvent c i) = i"
  by (cases c) simp_all

lemma genA: "frames (fst (generateEvents heapA callsA)) =
     map (\<lambda>n. \<lparr>sf_name = n, sf_file = None, sf_line = None, sf_col = None\<rparr>) [''main'', ''A'', ''B'', ''C'', ''D''] \<and> snd (generateEvents heapA callsA) = scenarioA"
  by (simp add: generateEvents_def callsA_def heapA_def openFrame_def closeFrame_def
      getIndexForFrame_def serializedFrame_def scenarioA_def parseInt_toString_def
      plainDecimal_def)

text \<open>
  Claim C9. Within one export the events carry the indices that \<open>getIndexForFrame\<close>
  returned, one call per event. Two calls return the same index exactly when they
  pass the same frame object, whatever the fields of the objects; the table lists one
  record per frame object in the order of first calls, and the index returned for a
  frame is the position of its record. A first call appends the record with the name
  and with \<open>file\<close>, \<open>line\<close>, \<open>col\<close> only where the frame has a value that is
  neither \<^verbatim>\<open>null\<close> nor \<^verbatim>\<open>undefined\<close>, and returns the old length of the table; a
  later call returns the stored index and changes nothing.
\<close>

theorem getIndexForFrame_interning:
  assumes "generateEvents heap calls = (st, evs)"
  shows "length evs = length calls \<and>
         (\<forall>i < length calls. \<forall>j < length calls.
            (frame (evs ! i) = frame (evs ! j)) = (callFrame (calls ! i) = callFrame (calls ! j))) \<and>
         frames st = map (\<lambda>r. serializedFrame (heap r)) (firstReferenceOrder (map callFrame calls)) \<and>
         (\<forall>i < length calls. frame (evs ! i) < length (frames st) \<and>
            frames st ! frame (evs ! i) = serializedFrame (heap (callFrame (calls ! i)))) \<and>
         (\<forall>s fr. indexForFrame s fr = None \<longrightarrow>
            getIndexForFrame heap fr s =
              (length (frames s),
               \<lparr>frames = frames s @
                  [\<lparr>sf_name = name (heap fr),
                    sf_file = (case file (heap fr) of Value v \<Rightarrow> Some v | _ \<Rightarrow> None),
                    sf_line = (case line (heap fr) of Value v \<Rightarrow> Some v | _ \<Rightarrow> None),
                    sf_col = (case col (heap fr) of Value v \<Rightarrow> Some v | _ \<Rightarrow> None)\<rparr>],
                indexForFrame = (indexForFrame s)(fr \<mapsto> length (frames s))\<rparr>)) \<and>
         (\<forall>s fr i. indexForFrame s fr = Some i \<longrightarrow> getIndexForFrame heap fr s = (i, s))"
proof -
  let ?rs = "firstReferenceOrder (map callFrame calls)"
  from generateEvents_char [OF assms]
  have m: "interned ?rs (indexForFrame st)"
    and f: "frames st = map (\<lambda>r. serializedFrame (heap r)) ?rs"
    and e: "evs = map (\<lambda>c. callEvent c (the (indexForFrame st (callFrame c)))) calls"
    by blast+
  have idx: "frame (evs ! i) < length ?rs \<and> ?rs ! frame (evs ! i) = callFrame (calls ! i)"
    if "i < length calls" for i
  proof -
    from that have "callFrame (calls ! i) \<in> set ?rs" by simp
    from interned_the [OF m this] that show ?thesis by (simp add: e)
  qed
  have a: "(frame (evs ! i) = frame (evs ! j)) = (callFrame (calls ! i) = callFrame (calls ! j))"
    if "i < length calls" "j < length calls" for i j
    using idx [OF that(1)] idx [OF that(2)] by (metis e frame_callEvent nth_map that)
  have b: "frame (evs ! i) < length (frames st) \<and>
      frames st ! frame (evs ! i) = serializedFrame (heap (callFrame (calls ! i)))"
    if "i < length calls" for i
    using idx [OF that] by (simp add: f)
  have c: "getIndexForFrame heap fr s =
              (length (frames s),
               \<lparr>frames = frames s @
                  [\<lparr>sf_name = name (heap fr),
                    sf_file = (case file (heap fr) of Value v \<Rightarrow> Some v | _ \<Rightarrow> None),
                    sf_line = (case line (heap fr) of Value v \<Rightarrow> Some v | _ \<Rightarrow> None),
                    sf_col = (case col (heap fr) of Value v \<Rightarrow> Some v | _ \<Rightarrow> None)\<rparr>],
                indexForFrame = (indexForFrame s)(fr \<mapsto> length (frames s))\<rparr>)"
    if "indexForFrame s fr = None" for s fr
    using that by (simp add: getIndexForFrame_def serializedFrame_def Let_def)
  have d: "getIndexForFrame heap fr s = (i, s)" if "indexForFrame s fr = Some i" for s fr i
    using that by (simp add: getIndexForFrame_def)
  have "length evs = length calls" by (simp add: e)
  with a b c d f show ?thesis by blast
qed

text \<open>
  Claim C9 on two frame objects with equal fields, each entered and left once: they
  get the indices 0 and 1, and the table holds two equal records.
\<close>

theorem getIndexForFrame_interning_witness:
  "generateEvents twinHeap [OpenCall 7 0, OpenCall 8 1, CloseCall 8 2, CloseCall 7 3] =
     (\<lparr>frames = [\<lparr>sf_name = ''f'', sf_file = Some ''a.js'', sf_line = None, sf_col = None\<rparr>,
                 \<lparr>sf_name = ''f'', sf_file = Some ''a.js'', sf_line = None, sf_col = None\<rparr>],
       indexForFrame = [7 \<mapsto> 0, 8 \<mapsto> 1]\<rparr>,
      [\<lparr>type = Open, frame = 0, at' = 0\<rparr>, \<lparr>type = Open, frame = 1, at' = 1\<rparr>,
       \<lparr>type = Close, frame = 1, at' = 2\<rparr>, \<lparr>type = Close, frame = 0, at' = 3\<rparr>]) \<and>
   firstReferenceOrder (map callFrame [OpenCall 7 0, OpenCall 8 1, CloseCall 8 2, CloseCall 7 3]) = [7, 8]"
proof -
  have g: "generateEvents twinHeap [OpenCall 7 0, OpenCall 8 1, CloseCall 8 2, CloseCall 7 3] =
     (\<lparr>frames = [\<lparr>sf_name = ''f'', sf_file = Some ''a.js'', sf_line = None, sf_col = None\<rparr>,
                 \<lparr>sf_name = ''f'', sf_file = Some ''a.js'', sf_line = None, sf_col = None\<rparr>],
       indexForFrame = [7 \<mapsto> 0, 8 \<mapsto> 1]\<rparr>,
      [\<lparr>type = Open, frame = 0, at' = 0\<rparr>, \<lparr>type = Open, frame = 1, at' = 1\<rparr>,
       \<lparr>type = Close, frame = 1, at' = 2\<rparr>, \<lparr>type = Close, frame = 0, at' = 3\<rparr>])"
    by (simp add: generateEvents_def openFrame_def closeFrame_def getIndexForFrame_def
        serializedFrame_def twinHeap_def parseInt_toString_def plainDecimal_def)
  from getIndexForFrame_interning [OF g] g show ?thesis
    by simp
qed

section \<open>Properties of the export\<close>

lemma sorted_filterEventsWithContext:
  "sorted (map at' (filterEventsWithContext evs s e))"
  by (simp add: filterEventsWithContext_def Let_def sorted_sort_key)

text \<open>
  Every \<open>at\<close> of the export is a value of \<^verbatim>\<open>parseInt\<close>, so below \<open>10\<^sup>2\<^sup>1\<close> in
  magnitude, and \<^verbatim>\<open>parseInt(at.toString())\<close> returns it unchanged.
\<close>

lemma callEvent_small: "\<bar>at' (callEvent c i)\<bar> < 10 ^ 21"
proof (cases c)
  case (OpenCall fr v)
  with parseInt_toString_small [of v] show ?thesis by simp
next
  case (CloseCall fr v)
  with parseInt_toString_small [of v] show ?thesis by simp
qed

lemma generateEvents_small:
  assumes "ev \<in> set (snd (generateEvents heap calls))"
  shows "\<bar>at' ev\<bar> < 10 ^ 21"
proof -
  obtain st evs where g: "generateEvents heap calls = (st, evs)"
    by (cases "generateEvents heap calls")
  from generateEvents_char [OF g]
  have "evs = map (\<lambda>c. callEvent c (the (indexForFrame st (callFrame c)))) calls"
    by blast
  with assms g obtain c where "ev = callEvent c (the (indexForFrame st (callFrame c)))"
    by auto
  with callEvent_small [of c "the (indexForFrame st (callFrame c))"] show ?thesis
    by simp
qed

lemma filter_output_small:
  assumes "\<And>ev. ev \<in> set evs \<Longrightarrow> \<bar>at' ev\<bar> < 10 ^ 21"
    and "x \<in> set (filterEventsWithContext evs s e)"
  shows "\<bar>at' x\<bar> < 10 ^ 21"
proof (cases "x \<in> set (syntheticEvents evs s e)")
  case True
  then have "at' x = parseInt_toString e \<or> at' x = parseInt_toString s"
    unfolding syntheticEvents_def by (blast dest: synthetic_at)
  then show ?thesis
    using parseInt_toString_small [of e] parseInt_toString_small [of s] by auto
next
  case False
  with assms(2) have "x \<in> set evs" by (simp add: set_filterEventsWithContext)
  then show ?thesis by (rule assms(1))
qed

lemma handleExportJson_unfold:
  "handleExportJson heap calls s e =
     (let out = filterEventsWithContext (snd (generateEvents heap calls)) s e
      in \<lparr>shared_frames = frames (fst (generateEvents heap calls)),
          profile_startValue = (if out = [] then 0 else at' (out ! 0)),
          profile_endValue = (if out = [] then 0 else at' (out ! (length out - 1))),
          profile_events = out\<rparr>)"
proof -
  let ?out = "filterEventsWithContext (snd (generateEvents heap calls)) s e"
  have small: "parseInt_toString (of_int (at' x)) = at' x" if "x \<in> set ?out" for x
    using filter_output_small [OF generateEvents_small that]
    by (rule parseInt_toString_of_int)
  have "parseInt_toString (of_int (at' (?out ! 0))) = at' (?out ! 0)"
    and "parseInt_toString (of_int (at' (?out ! (length ?out - 1)))) =
         at' (?out ! (length ?out - 1))"
    if "?out \<noteq> []"
    using that by (simp_all add: small)
  then show ?thesis
    by (cases "generateEvents heap calls")
       (simp add: handleExportJson_def Let_def sort_key_id_if_sorted
          sorted_filterEventsWithContext)
qed

lemma sorted_first_Min:
  assumes "sorted (map f xs)" and "xs \<noteq> []"
  shows "f (xs ! 0) = Min (f ` set xs)"
proof (rule Min_eqI [symmetric])
  show "finite (f ` set xs)" by simp
  show "f (xs ! 0) \<in> f ` set xs" using assms(2) by simp
  fix y assume "y \<in> f ` set xs"
  then obtain k where k: "k < length xs" "y = f (xs ! k)"
    by (auto simp: in_set_conv_nth)
  with assms(1) have "map f xs ! 0 \<le> map f xs ! k"
    by (intro sorted_nth_mono) simp_all
  with k assms(2) show "f (xs ! 0) \<le> y" by simp
qed

lemma sorted_last_Max:
  assumes "sorted (map f xs)" and "xs \<noteq> []"
  shows "f (xs ! (length xs - 1)) = Max (f ` set xs)"
proof (rule Max_eqI [symmetric])
  show "finite (f ` set xs)" by simp
  show "f (xs ! (length xs - 1)) \<in> f ` set xs" using assms(2) by simp
  fix y assume "y \<in> f ` set xs"
  then obtain k where k: "k < length xs" "y = f (xs ! k)"
    by (auto simp: in_set_conv_nth)
  with assms have "map f xs ! k \<le> map f xs ! (length xs - 1)"
    by (intro sorted_nth_mono) simp_all
  with k assms(2) show "y \<le> f (xs ! (length xs - 1))" by simp
qed

lemma filterEventsWithContext_empty_window:
  assumes "e < s"
  shows "filterEventsWithContext evs s e = []"
proof -
  from assms have "filter (inInterval s e) evs = []"
    by (auto simp: filter_empty_conv inInterval_def)
  then have f: "filteredEvents (firstPass evs s e) = []"
    and "fst ` set (frameStates (firstPass evs s e)) = {}"
    by (simp_all add: firstPass_filteredEvents firstPass_keys)
  then have "frameStates (firstPass evs s e) = []" by simp
  with f show ?thesis
    by (simp add: filterEventsWithContext_def syntheticEvents_def)
qed

text \<open>
  Claim C5, amended. In the exported document \<open>startValue\<close> is the least and
  \<open>endValue\<close> the greatest \<open>at\<close> of the final events, and both are 0 when there
  are none. When there are events and the bounds of the requested window are numbers
  whose decimal string has no exponent, \<open>\<lfloor>start\<rfloor> \<le> startValue\<close> and
  \<open>endValue \<le> \<lceil>end\<rceil>\<close>; \<open>start \<le> startValue\<close> holds when \<open>start\<close> is an integer
  or not positive, and \<open>endValue \<le> end\<close> when \<open>end\<close> is an integer or not
  negative. The values may lie strictly inside the window, as they do for scenario A
  and the window \<open>[250, 450]\<close>.
\<close>

theorem handleExportJson_bounds:
  assumes "d = handleExportJson heap calls startValue endValue"
  shows "(profile_events d = [] \<longrightarrow> profile_startValue d = 0 \<and> profile_endValue d = 0) \<and>
         (profile_events d \<noteq> [] \<longrightarrow>
            profile_startValue d = Min (at' ` set (profile_events d)) \<and>
            profile_endValue d = Max (at' ` set (profile_events d))) \<and>
         (profile_events d \<noteq> [] \<and> plainDecimal startValue \<and> plainDecimal endValue \<longrightarrow>
            \<lfloor>startValue\<rfloor> \<le> profile_startValue d \<and> profile_endValue d \<le> \<lceil>endValue\<rceil> \<and>
            (startValue \<in> \<int> \<or> startValue \<le> 0 \<longrightarrow> startValue \<le> of_int (profile_startValue d)) \<and>
            (endValue \<in> \<int> \<or> 0 \<le> endValue \<longrightarrow> of_int (profile_endValue d) \<le> endValue)) \<and>
         (250 < rat_of_int (profile_startValue (handleExportJson heapA callsA 250 450)) \<and>
          rat_of_int (profile_endValue (handleExportJson heapA callsA 250 450)) < 450)"
proof -
  let ?out = "filterEventsWithContext (snd (generateEvents heap calls)) startValue endValue"
  have ev: "profile_events d = ?out"
    and sv: "profile_startValue d = (if ?out = [] then 0 else at' (?out ! 0))"
    and en: "profile_endValue d = (if ?out = [] then 0 else at' (?out ! (length ?out - 1)))"
    by (simp_all add: assms handleExportJson_unfold Let_def)
  have empty: "profile_startValue d = 0 \<and> profile_endValue d = 0" if "profile_events d = []"
    using that by (simp add: ev sv en)
  have extremes: "profile_startValue d = Min (at' ` set (profile_events d)) \<and>
            profile_endValue d = Max (at' ` set (profile_events d))"
    if "profile_events d \<noteq> []"
  proof -
    from that have ne: "?out \<noteq> []" by (simp add: ev)
    with sorted_first_Min [OF sorted_filterEventsWithContext ne]
      sorted_last_Max [OF sorted_filterEventsWithContext ne]
    show ?thesis by (simp add: ev sv en)
  qed
  have bounds: "\<lfloor>startValue\<rfloor> \<le> profile_startValue d \<and> profile_endValue d \<le> \<lceil>endValue\<rceil> \<and>
            (startValue \<in> \<int> \<or> startValue \<le> 0 \<longrightarrow> startValue \<le> of_int (profile_startValue d)) \<and>
            (endValue \<in> \<int> \<or> 0 \<le> endValue \<longrightarrow> of_int (profile_endValue d) \<le> endValue)"
    if "profile_events d \<noteq> []" and ps: "plainDecimal startValue" and pe: "plainDecimal endValue"
  proof -
    from that have ne: "?out \<noteq> []" by (simp add: ev)
    then have "?out ! 0 \<in> set ?out" and "?out ! (length ?out - 1) \<in> set ?out"
      by simp_all
    from filter_output_bounds [OF this(1) ps pe] filter_output_bounds [OF this(2) ps pe] ne
    show ?thesis by (simp add: sv en)
  qed
  have "filterEventsWithContext scenarioA 250 450 =
      [\<lparr>type = Open, frame = 3, at' = 300\<rparr>, \<lparr>type = Close, frame = 3, at' = 400\<rparr>]"
    by (simp add: scenarioA_def filter_eval)
  moreover have "snd (generateEvents heapA callsA) = scenarioA"
    using genA by simp
  ultimately have inside:
    "250 < rat_of_int (profile_startValue (handleExportJson heapA callsA 250 450)) \<and>
      rat_of_int (profile_endValue (handleExportJson heapA callsA 250 450)) < 450"
    by (simp add: handleExportJson_unfold)
  from empty extremes bounds inside show ?thesis by blast
qed

text \<open>The amended claim C5 on scenario A with the window \<open>[200, 600]\<close>.\<close>

theorem handleExportJson_bounds_witness:
  "profile_events (handleExportJson heapA callsA 200 600) \<noteq> [] \<and>
   plainDecimal 200 \<and> plainDecimal 600 \<and>
   profile_startValue (handleExportJson heapA callsA 200 600) = 200 \<and>
   profile_endValue (handleExportJson heapA callsA 200 600) = 600 \<and>
   Min (at' ` set (profile_events (handleExportJson heapA callsA 200 600))) = 200 \<and>
   Max (at' ` set (profile_events (handleExportJson heapA callsA 200 600))) = 600"
proof -
  have g: "snd (generateEvents heapA callsA) = scenarioA"
    using genA by simp
  have "profile_events (handleExportJson heapA callsA 200 600) \<noteq> []"
    and "profile_startValue (handleExportJson heapA callsA 200 600) = 200"
    and "profile_endValue (handleExportJson heapA callsA 200 600) = 600"
    and "plainDecimal 200" and "plainDecimal 600"
    by (simp_all add: handleExportJson_unfold g scenarioA_filter Let_def plainDecimal_def)
  with handleExportJson_bounds [OF refl, of heapA callsA 200 600] show ?thesis
    by simp
qed

text \<open>
  Claim C5 as stated fails for a fractional start: for the window \<open>[200.5, 600]\<close> and
  a frame open from 100 to 300 the document has \<open>startValue = 200\<close>, outside the
  window.
\<close>

theorem handleExportJson_bounds_counterexample:
  "(401 / 2 :: rat) \<le> 600 \<and> plainDecimal (401 / 2) \<and> plainDecimal 600 \<and>
   profile_events (handleExportJson heapA [OpenCall 0 100, CloseCall 0 300] (401 / 2) 600) =
     [\<lparr>type = Open, frame = 0, at' = 200\<rparr>, \<lparr>type = Close, frame = 0, at' = 300\<rparr>] \<and>
   profile_startValue (handleExportJson heapA [OpenCall 0 100, CloseCall 0 300] (401 / 2) 600) = 200 \<and>
   \<not> (401 / 2 :: rat) \<le>
      of_int (profile_startValue (handleExportJson heapA [OpenCall 0 100, CloseCall 0 300] (401 / 2) 600))"
  by (simp add: handleExportJson_def generateEvents_def openFrame_def closeFrame_def
      getIndexForFrame_def filter_eval plainDecimal_def)

lemma compressFramesAndRemap_Nil: "compressFramesAndRemap oldFrames [] = ([], [])"
  by (simp add: compressFramesAndRemap_def)

text \<open>
  Claim C3, amended. A window with \<open>start > end\<close> is not rejected: the filter runs
  on it and returns no event, and the export, in either revision, builds a document with
  no events and \<open>startValue = endValue = 0\<close>.
\<close>

theorem handleExportJson_inverted_window:
  assumes "endValue < startValue"
  shows "filterEventsWithContext evs startValue endValue = [] \<and>
         profile_events (handleExportJson heap calls startValue endValue) = [] \<and>
         profile_startValue (handleExportJson heap calls startValue endValue) = 0 \<and>
         profile_endValue (handleExportJson heap calls startValue endValue) = 0 \<and>
         profile_events (handleExportJsonCompressed heap calls startValue endValue) = [] \<and>
         profile_startValue (handleExportJsonCompressed heap calls startValue endValue) = 0 \<and>
         profile_endValue (handleExportJsonCompressed heap calls startValue endValue) = 0"
proof -
  have empty: "filterEventsWithContext xs startValue endValue = []" for xs
    using assms by (rule filterEventsWithContext_empty_window)
  have "profile_events (handleExportJson heap calls startValue endValue) = []"
    and "profile_startValue (handleExportJson heap calls startValue endValue) = 0"
    and "profile_endValue (handleExportJson heap calls startValue endValue) = 0"
    by (simp_all add: handleExportJson_unfold empty)
  moreover
  have "profile_events (handleExportJsonCompressed heap calls startValue endValue) = []"
    and "profile_startValue (handleExportJsonCompressed heap calls startValue endValue) = 0"
    and "profile_endValue (handleExportJsonCompressed heap calls startValue endValue) = 0"
    by (cases "generateEvents heap calls";
        simp add: handleExportJsonCompressed_def empty compressFramesAndRemap_Nil)+
  ultimately show ?thesis using empty by simp
qed

text \<open>The amended claim C3 on scenario A with the window \<open>[600, 200]\<close>.\<close>

theorem handleExportJson_inverted_window_witness:
  "(200::rat) < 600 \<and> filterEventsWithContext scenarioA 600 200 = [] \<and>
   profile_events (handleExportJson heapA callsA 600 200) = [] \<and>
   profile_startValue (handleExportJson heapA callsA 600 200) = 0 \<and>
   profile_endValue (handleExportJson heapA callsA 600 200) = 0 \<and>
   profile_events (handleExportJsonCompressed heapA callsA 600 200) = [] \<and>
   profile_startValue (handleExportJsonCompressed heapA callsA 600 200) = 0 \<and>
   profile_endValue (handleExportJsonCompressed heapA callsA 600 200) = 0"
proof -
  have h: "(200::rat) < 600" by simp
  from handleExportJson_inverted_window [OF h, of scenarioA heapA callsA] h show ?thesis
    by simp
qed

text \<open>
  Claim C3 as stated fails: for the window \<open>[600, 200]\<close> the export of scenario A
  returns a document in either revision, and the events of the document are what the
  filter returns for that window.
\<close>

theorem handleExportJson_inverted_window_counterexample:
  "(200::rat) < 600 \<and>
   snd (generateEvents heapA callsA) = scenarioA \<and>
   profile_events (handleExportJson heapA callsA 600 200) =
     filterEventsWithContext scenarioA 600 200 \<and>
   profile_events (handleExportJsonCompressed heapA callsA 600 200) =
     snd (compressFramesAndRemap (map Some (frames (fst (generateEvents heapA callsA))))
       (filterEventsWithContext scenarioA 600 200)) \<and>
   filterEventsWithContext scenarioA 600 200 = [] \<and>
   profile_startValue (handleExportJson heapA callsA 600 200) = 0 \<and>
   profile_endValue (handleExportJson heapA callsA 600 200) = 0 \<and>
   profile_startValue (handleExportJsonCompressed heapA callsA 600 200) = 0 \<and>
   profile_endValue (handleExportJsonCompressed heapA callsA 600 200) = 0"
proof -
  have g: "snd (generateEvents heapA callsA) = scenarioA"
    using genA by simp
  have e: "filterEventsWithContext scenarioA 600 200 = []"
    by (simp add: scenarioA_def filter_eval)
  have "profile_events (handleExportJsonCompressed heapA callsA 600 200) = []"
    and "profile_startValue (handleExportJsonCompressed heapA callsA 600 200) = 0"
    and "profile_endValue (handleExportJsonCompressed heapA callsA 600 200) = 0"
    by (cases "generateEvents heapA callsA";
        use g e in \<open>simp add: handleExportJsonCompressed_def compressFramesAndRemap_Nil\<close>)+
  with g e show ?thesis
    by (simp add: handleExportJson_unfold compressFramesAndRemap_Nil)
qed

section \<open>Properties of frame compaction\<close>

lemma compressStep_new:
  "m (frame ev) = None \<Longrightarrow>
   compressStep oldFrames (m, nf) ev =
     (m(frame ev \<mapsto> length nf), nf @ [js_index oldFrames (frame ev)])"
  by (simp add: compressStep_def)

lemma compressStep_old:
  "m (frame ev) \<noteq> None \<Longrightarrow> compressStep oldFrames (m, nf) ev = (m, nf)"
  by (simp add: compressStep_def)

lemma compress_loop:
  assumes "interned rs m" and "nf = map (js_index oldFrames) rs"
    and "foldl (compressStep oldFrames) (m, nf) evs = (m', nf')"
  shows "interned (rs @ firstReferenceOrder (filter (\<lambda>y. y \<notin> set rs) (map frame evs))) m' \<and>
         nf' = map (js_index oldFrames)
                 (rs @ firstReferenceOrder (filter (\<lambda>y. y \<notin> set rs) (map frame evs)))"
  using assms
proof (induction evs arbitrary: rs m nf)
  case Nil
  then show ?case by simp
next
  case (Cons ev evs)
  show ?case
  proof (cases "m (frame ev) = None")
    case True
    with Cons.prems(1) have nin: "frame ev \<notin> set rs" by (simp add: interned_None)
    have i1: "interned (rs @ [frame ev]) (m(frame ev \<mapsto> length rs))"
      using Cons.prems(1) True by (rule interned_new)
    have n1: "nf @ [js_index oldFrames (frame ev)] = map (js_index oldFrames) (rs @ [frame ev])"
      using Cons.prems(2) by simp
    have "foldl (compressStep oldFrames)
            (m(frame ev \<mapsto> length rs), nf @ [js_index oldFrames (frame ev)]) evs = (m', nf')"
      using Cons.prems(3) True Cons.prems(2) by (simp add: compressStep_new)
    from Cons.IH [OF i1 n1 this] firstReferenceOrder_step [OF nin, of "map frame evs"]
    show ?thesis by simp
  next
    case False
    with Cons.prems(1) have "frame ev \<in> set rs" by (simp add: interned_None)
    moreover have "foldl (compressStep oldFrames) (m, nf) evs = (m', nf')"
      using Cons.prems(3) False by (simp add: compressStep_old)
    ultimately show ?thesis
      using Cons.IH [OF Cons.prems(1) Cons.prems(2)] by simp
  qed
qed

lemma compress_char:
  obtains m where "interned (firstReferenceOrder (map frame evs)) m"
    and "compressFramesAndRemap oldFrames evs =
           (map (js_index oldFrames) (firstReferenceOrder (map frame evs)),
            map (\<lambda>ev. ev\<lparr>frame := the (m (frame ev))\<rparr>) evs)"
proof -
  obtain m nf where f: "foldl (compressStep oldFrames) (Map.empty, []) evs = (m, nf)"
    by (cases "foldl (compressStep oldFrames) (Map.empty, []) evs")
  from compress_loop [OF interned_empty _ f]
  have "interned (firstReferenceOrder (map frame evs)) m"
    and "nf = map (js_index oldFrames) (firstReferenceOrder (map frame evs))"
    by simp_all
  with f that show thesis
    by (simp add: compressFramesAndRemap_def)
qed

lemma map_js_index_upt: "map (js_index xs) [0..<length xs] = xs"
  by (rule nth_equalityI) (simp_all add: js_index_def)

lemma compress_fst:
  "fst (compressFramesAndRemap oldFrames evs) =
     map (js_index oldFrames) (firstReferenceOrder (map frame evs))"
  by (rule compress_char [of evs oldFrames]) simp

lemma compress_snd:
  obtains m where "interned (firstReferenceOrder (map frame evs)) m"
    and "snd (compressFramesAndRemap oldFrames evs) =
           map (\<lambda>ev. ev\<lparr>frame := the (m (frame ev))\<rparr>) evs"
  by (rule compress_char [of evs oldFrames]) simp

lemma length_distinct_below:
  assumes "distinct rs" and "\<forall>i \<in> set rs. i < (n::nat)"
  shows "length rs \<le> n"
proof -
  from assms(2) have "set rs \<subseteq> {..<n}" by auto
  then have "card (set rs) \<le> card {..<n}" by (intro card_mono) simp_all
  with assms(1) show ?thesis by (simp add: distinct_card)
qed

lemmas compress_eval = compressFramesAndRemap_def compressStep_def js_index_def Let_def

lemma compress_scenario:
  "compressFramesAndRemap [Some ''main'', Some ''A'', Some ''B'', Some ''C'', Some ''D'']
     (filterEventsWithContext scenarioA 200 600) =
   ([Some ''B'', Some ''C'', Some ''D''],
    [\<lparr>type = Open, frame = 0, at' = 200\<rparr>, \<lparr>type = Open, frame = 1, at' = 300\<rparr>,
     \<lparr>type = Close, frame = 1, at' = 400\<rparr>, \<lparr>type = Close, frame = 0, at' = 500\<rparr>,
     \<lparr>type = Open, frame = 2, at' = 600\<rparr>, \<lparr>type = Close, frame = 2, at' = 600\<rparr>])"
  by (simp add: scenarioA_filter compress_eval)

text \<open>
  What compaction returns for any table and any events: the cells \<^verbatim>\<open>frames[i]\<close> of
  the indices that the events refer to, in the order of first reference.
\<close>

lemma compress_general:
  "fst (compressFramesAndRemap oldFrames evs) =
     map (js_index oldFrames) (firstReferenceOrder (map frame evs)) \<and>
   set (fst (compressFramesAndRemap oldFrames evs)) = js_index oldFrames ` frame ` set evs \<and>
   (\<forall>ev \<in> set (snd (compressFramesAndRemap oldFrames evs)).
      frame ev < length (fst (compressFramesAndRemap oldFrames evs))) \<and>
   (\<forall>j < length (fst (compressFramesAndRemap oldFrames evs)).
      \<exists>ev \<in> set (snd (compressFramesAndRemap oldFrames evs)). frame ev = j) \<and>
   ((\<forall>ev \<in> set evs. frame ev < length oldFrames) \<longrightarrow>
      length (fst (compressFramesAndRemap oldFrames evs)) \<le> length oldFrames \<and>
      fst (compressFramesAndRemap oldFrames evs) =
        map (\<lambda>i. oldFrames ! i) (firstReferenceOrder (map frame evs)))"
proof -
  let ?rs = "firstReferenceOrder (map frame evs)"
  obtain m where m: "interned ?rs m"
    and s: "snd (compressFramesAndRemap oldFrames evs) =
           map (\<lambda>ev. ev\<lparr>frame := the (m (frame ev))\<rparr>) evs"
    by (rule compress_snd)
  have f: "fst (compressFramesAndRemap oldFrames evs) = map (js_index oldFrames) ?rs"
    by (rule compress_fst)
  have st: "set (fst (compressFramesAndRemap oldFrames evs)) = js_index oldFrames ` frame ` set evs"
    by (simp add: f)
  have lt: "frame ev < length (fst (compressFramesAndRemap oldFrames evs))"
    if "ev \<in> set (snd (compressFramesAndRemap oldFrames evs))" for ev
  proof -
    from that s obtain ev0 where "ev0 \<in> set evs" "ev = ev0\<lparr>frame := the (m (frame ev0))\<rparr>"
      by auto
    with interned_the [OF m, of "frame ev0"] show ?thesis by (simp add: f)
  qed
  have ex: "\<exists>ev \<in> set (snd (compressFramesAndRemap oldFrames evs)). frame ev = j"
    if "j < length (fst (compressFramesAndRemap oldFrames evs))" for j
  proof -
    from that have j: "j < length ?rs" by (simp add: f)
    then have "?rs ! j \<in> set ?rs" by (rule nth_mem)
    then obtain ev0 where ev0: "ev0 \<in> set evs" "frame ev0 = ?rs ! j" by auto
    from interned_nth [OF m j] ev0 have "frame (ev0\<lparr>frame := the (m (frame ev0))\<rparr>) = j"
      by simp
    with ev0(1) s show ?thesis by force
  qed
  have inside: "length (fst (compressFramesAndRemap oldFrames evs)) \<le> length oldFrames \<and>
      fst (compressFramesAndRemap oldFrames evs) = map (\<lambda>i. oldFrames ! i) ?rs"
    if "\<forall>ev \<in> set evs. frame ev < length oldFrames"
  proof -
    from that have rng: "\<forall>i \<in> set ?rs. i < length oldFrames" by auto
    then have "map (js_index oldFrames) ?rs = map (\<lambda>i. oldFrames ! i) ?rs"
      by (simp add: js_index_def)
    with length_distinct_below [OF _ rng] show ?thesis by (simp add: f)
  qed
  from f st lt ex inside show ?thesis by blast
qed

text \<open>
  The export compacts the interned table against the filtered events, and each of these
  events refers to an index of that table.
\<close>

lemma pipeline_in_range:
  assumes "generateEvents heap calls = (st, evs)"
    and "ev \<in> set (filterEventsWithContext evs s e)"
  shows "frame ev < length (map Some (frames st))"
proof -
  let ?rs = "firstReferenceOrder (map callFrame calls)"
  from generateEvents_char [OF assms(1)]
  have m: "interned ?rs (indexForFrame st)"
    and f: "frames st = map (\<lambda>r. serializedFrame (heap r)) ?rs"
    and e: "evs = map (\<lambda>c. callEvent c (the (indexForFrame st (callFrame c)))) calls"
    by blast+
  have "frame ev \<in> frame ` set evs"
  proof (cases "ev \<in> set (syntheticEvents evs s e)")
    case True
    then have "frame ev \<in> fst ` set (frameStates (firstPass evs s e))"
      unfolding syntheticEvents_def by (blast dest: synthetic_at)
    then show ?thesis by (auto simp: firstPass_keys)
  next
    case False
    with assms(2) show ?thesis by (simp add: set_filterEventsWithContext)
  qed
  then obtain c where "c \<in> set calls" and "frame ev = the (indexForFrame st (callFrame c))"
    by (auto simp: e)
  with interned_the [OF m, of "callFrame c"] show ?thesis by (simp add: f)
qed

text \<open>
  Claim C6. For a frame table and an event stream over it, every event referring to an
  index of the table, as in every call that the export makes: the new table holds
  exactly the entries of the old table that some event refers to, in the order of first
  reference; it is no longer than the old table, every rewritten event refers to an
  index of the new table, and every index of the new table is referred to by a
  rewritten event.
\<close>

theorem compressFramesAndRemap_sound:
  assumes "\<forall>ev \<in> set evs. frame ev < length oldFrames"
  shows "fst (compressFramesAndRemap oldFrames evs) =
           map (\<lambda>i. oldFrames ! i) (firstReferenceOrder (map frame evs)) \<and>
         set (fst (compressFramesAndRemap oldFrames evs)) =
           (\<lambda>i. oldFrames ! i) ` frame ` set evs \<and>
         length (fst (compressFramesAndRemap oldFrames evs)) \<le> length oldFrames \<and>
         (\<forall>ev \<in> set (snd (compressFramesAndRemap oldFrames evs)).
            frame ev < length (fst (compressFramesAndRemap oldFrames evs))) \<and>
         (\<forall>j < length (fst (compressFramesAndRemap oldFrames evs)).
            \<exists>ev \<in> set (snd (compressFramesAndRemap oldFrames evs)). frame ev = j)"
proof -
  from compress_general [of oldFrames evs] assms
  have f: "fst (compressFramesAndRemap oldFrames evs) =
           map (\<lambda>i. oldFrames ! i) (firstReferenceOrder (map frame evs))"
    and len: "length (fst (compressFramesAndRemap oldFrames evs)) \<le> length oldFrames"
    and lt: "\<forall>ev \<in> set (snd (compressFramesAndRemap oldFrames evs)).
            frame ev < length (fst (compressFramesAndRemap oldFrames evs))"
    and ex: "\<forall>j < length (fst (compressFramesAndRemap oldFrames evs)).
            \<exists>ev \<in> set (snd (compressFramesAndRemap oldFrames evs)). frame ev = j"
    by blast+
  have "set (fst (compressFramesAndRemap oldFrames evs)) =
           (\<lambda>i. oldFrames ! i) ` frame ` set evs"
    by (simp add: f)
  with f len lt ex show ?thesis by blast
qed

text \<open>
  Claim C6 on scenario A: the filtered events refer to the frames 2, 3 and 4 of the
  table of five, and the new table holds these three entries.
\<close>

theorem compressFramesAndRemap_sound_witness:
  "fst (compressFramesAndRemap [Some ''main'', Some ''A'', Some ''B'', Some ''C'', Some ''D'']
     (filterEventsWithContext scenarioA 200 600)) = [Some ''B'', Some ''C'', Some ''D''] \<and>
   firstReferenceOrder (map frame (filterEventsWithContext scenarioA 200 600)) = [2, 3, 4] \<and>
   length (fst (compressFramesAndRemap [Some ''main'', Some ''A'', Some ''B'', Some ''C'', Some ''D'']
     (filterEventsWithContext scenarioA 200 600))) \<le> 5"
proof -
  have h: "\<forall>ev \<in> set (filterEventsWithContext scenarioA 200 600).
      frame ev < length [Some ''main'', Some ''A'', Some ''B'', Some ''C'', Some ''D'']"
    by (simp add: scenarioA_filter)
  have "firstReferenceOrder (map frame (filterEventsWithContext scenarioA 200 600)) = [2, 3, 4]"
    by (simp add: scenarioA_filter)
  with compressFramesAndRemap_sound [OF h] show ?thesis
    by simp
qed

text \<open>
  Claim C7. Compacting the result of a compaction returns that result: the same table
  in the same order and the same events.
\<close>

lemma compressFramesAndRemap_idempotent:
  "compressFramesAndRemap (fst (compressFramesAndRemap oldFrames evs))
     (snd (compressFramesAndRemap oldFrames evs)) = compressFramesAndRemap oldFrames evs"
proof -
  let ?rs = "firstReferenceOrder (map frame evs)"
  obtain m where m: "interned ?rs m"
    and r: "compressFramesAndRemap oldFrames evs =
           (map (js_index oldFrames) ?rs, map (\<lambda>ev. ev\<lparr>frame := the (m (frame ev))\<rparr>) evs)"
    by (rule compress_char)
  let ?nf = "map (js_index oldFrames) ?rs"
  let ?evs2 = "map (\<lambda>ev. ev\<lparr>frame := the (m (frame ev))\<rparr>) evs"
  let ?g = "\<lambda>x. the (m x)"
  have g: "?g (?rs ! k) = k" if "k < length ?rs" for k
    using m that by (simp add: interned_def)
  have inj: "inj_on ?g (set ?rs)"
  proof (rule inj_onI)
    fix x y assume "x \<in> set ?rs" "y \<in> set ?rs" "?g x = ?g y"
    with interned_the [OF m] show "x = y" by metis
  qed
  have "map frame ?evs2 = map ?g (map frame evs)" by simp
  then have "firstReferenceOrder (map frame ?evs2) = map ?g ?rs"
    using inj by (simp add: firstReferenceOrder_map_inj del: map_map)
  also have "\<dots> = [0..<length ?rs]"
    by (rule nth_equalityI) (simp_all add: g)
  finally have rs2: "firstReferenceOrder (map frame ?evs2) = [0..<length ?nf]" by simp
  obtain m2 where m2: "interned (firstReferenceOrder (map frame ?evs2)) m2"
    and r2: "compressFramesAndRemap ?nf ?evs2 =
           (map (js_index ?nf) (firstReferenceOrder (map frame ?evs2)),
            map (\<lambda>ev. ev\<lparr>frame := the (m2 (frame ev))\<rparr>) ?evs2)"
    by (rule compress_char)
  have fr: "frame ev < length ?nf" if "ev \<in> set ?evs2" for ev
    using that interned_the [OF m] by auto
  have "map (\<lambda>ev. ev\<lparr>frame := the (m2 (frame ev))\<rparr>) ?evs2 = ?evs2"
  proof (rule map_idI)
    fix ev assume "ev \<in> set ?evs2"
    then have "frame ev < length ?nf" by (rule fr)
    with m2 rs2 have "m2 (frame ev) = Some (frame ev)"
      by (simp add: interned_upt)
    then show "ev\<lparr>frame := the (m2 (frame ev))\<rparr> = ev" by simp
  qed
  with r r2 rs2 show ?thesis
    by (simp add: map_js_index_upt del: length_map)
qed

text \<open>Claim C7 on the compacted table and events of scenario A.\<close>

theorem compressFramesAndRemap_idempotent_witness:
  "compressFramesAndRemap [Some ''B'', Some ''C'', Some ''D'']
    [\<lparr>type = Open, frame = 0, at' = 200\<rparr>, \<lparr>type = Open, frame = 1, at' = 300\<rparr>,
     \<lparr>type = Close, frame = 1, at' = 400\<rparr>, \<lparr>type = Close, frame = 0, at' = 500\<rparr>,
     \<lparr>type = Open, frame = 2, at' = 600\<rparr>, \<lparr>type = Close, frame = 2, at' = 600\<rparr>] =
   ([Some ''B'', Some ''C'', Some ''D''],
    [\<lparr>type = Open, frame = 0, at' = 200\<rparr>, \<lparr>type = Open, frame = 1, at' = 300\<rparr>,
     \<lparr>type = Close, frame = 1, at' = 400\<rparr>, \<lparr>type = Close, frame = 0, at' = 500\<rparr>,
     \<lparr>type = Open, frame = 2, at' = 600\<rparr>, \<lparr>type = Close, frame = 2, at' = 600\<rparr>])"
  using compressFramesAndRemap_idempotent
    [of "[Some ''main'', Some ''A'', Some ''B'', Some ''C'', Some ''D'']"
        "filterEventsWithContext scenarioA 200 600"]
  by (simp add: compress_scenario)

text \<open>
  Claim C10. Compaction keeps the number and the order of the events and their
  \<open>type\<close> and \<open>at\<close>; the rewritten \<open>frame\<close> of an event selects in the new table
  the cell that the old \<open>frame\<close> selected in the old table, and every cell of the new
  table is a cell of the old table that an event refers to.
\<close>

theorem compressFramesAndRemap_frame_effect:
  "length (snd (compressFramesAndRemap oldFrames evs)) = length evs \<and>
   map type (snd (compressFramesAndRemap oldFrames evs)) = map type evs \<and>
   map at' (snd (compressFramesAndRemap oldFrames evs)) = map at' evs \<and>
   (\<forall>k < length evs.
      js_index (fst (compressFramesAndRemap oldFrames evs))
        (frame (snd (compressFramesAndRemap oldFrames evs) ! k)) =
      js_index oldFrames (frame (evs ! k))) \<and>
   (\<forall>j < length (fst (compressFramesAndRemap oldFrames evs)).
      \<exists>i \<in> frame ` set evs. fst (compressFramesAndRemap oldFrames evs) ! j = js_index oldFrames i)"
proof -
  let ?rs = "firstReferenceOrder (map frame evs)"
  obtain m where m: "interned ?rs m"
    and s: "snd (compressFramesAndRemap oldFrames evs) =
           map (\<lambda>ev. ev\<lparr>frame := the (m (frame ev))\<rparr>) evs"
    by (rule compress_snd)
  have same: "js_index (fst (compressFramesAndRemap oldFrames evs))
        (frame (snd (compressFramesAndRemap oldFrames evs) ! k)) =
      js_index oldFrames (frame (evs ! k))" if "k < length evs" for k
  proof -
    from that have "frame (evs ! k) \<in> set ?rs" by simp
    from interned_the [OF m this] that show ?thesis
      by (simp add: s compress_fst js_index_def [of "map _ _"])
  qed
  have cell: "\<exists>i \<in> frame ` set evs. fst (compressFramesAndRemap oldFrames evs) ! j = js_index oldFrames i"
    if "j < length (fst (compressFramesAndRemap oldFrames evs))" for j
  proof -
    from that have j: "j < length ?rs" by (simp add: compress_fst)
    then have "?rs ! j \<in> set ?rs" by (rule nth_mem)
    then have "?rs ! j \<in> frame ` set evs" by simp
    moreover from j have "fst (compressFramesAndRemap oldFrames evs) ! j = js_index oldFrames (?rs ! j)"
      by (simp add: compress_fst)
    ultimately show ?thesis by blast
  qed
  have "map type (snd (compressFramesAndRemap oldFrames evs)) = map type evs"
    and "map at' (snd (compressFramesAndRemap oldFrames evs)) = map at' evs"
    by (simp_all add: s)
  with same cell show ?thesis by (simp add: s)
qed

text \<open>Claim C10 at the second event of the filtered scenario A, the Open of C.\<close>

theorem compressFramesAndRemap_frame_effect_witness:
  "(1::nat) < length (filterEventsWithContext scenarioA 200 600) \<and>
   js_index (fst (compressFramesAndRemap [Some ''main'', Some ''A'', Some ''B'', Some ''C'', Some ''D'']
        (filterEventsWithContext scenarioA 200 600)))
     (frame (snd (compressFramesAndRemap [Some ''main'', Some ''A'', Some ''B'', Some ''C'', Some ''D'']
        (filterEventsWithContext scenarioA 200 600)) ! 1)) = Some ''C'' \<and>
   js_index [Some ''main'', Some ''A'', Some ''B'', Some ''C'', Some ''D'']
     (frame (filterEventsWithContext scenarioA 200 600 ! 1)) = Some ''C''"
proof -
  have h: "(1::nat) < length (filterEventsWithContext scenarioA 200 600)"
    by (simp add: scenarioA_filter)
  have "js_index [Some ''main'', Some ''A'', Some ''B'', Some ''C'', Some ''D'']
     (frame (filterEventsWithContext scenarioA 200 600 ! 1)) = Some ''C''"
    by (simp add: scenarioA_filter js_index_def)
  with compressFramesAndRemap_frame_effect
    [of "[Some ''main'', Some ''A'', Some ''B'', Some ''C'', Some ''D'']"
        "filterEventsWithContext scenarioA 200 600"] h
  show ?thesis by simp
qed

end
